theory Spec2Isabelle
  imports Main
begin

section \<open>The subdomain scanner of src/domainscan.py\<close>

text \<open>
  The class \<open>SubdomainScanner\<close> is embedded with explicit state passing. The scanner
  object is a record; the network, which the code reaches through
  \<open>self.session.get(url)\<close>, is a parameter that says what each attempt on a URL meets;
  the effects a caller can observe from outside (requests, sleeps, log lines) are kept in
  a trace held by the record.
\<close>

subsection \<open>Values\<close>

text \<open>The one Python exception that escapes the modelled methods.\<close>

datatype py_error = ValueError

text \<open>
  What awaiting a coroutine comes to: it returns, it raises, or it never resumes
  (a task that waits for a semaphore nobody releases).
\<close>

datatype 'a outcome = Returns 'a | Raises py_error | Hangs

text \<open>
  \<open>BeautifulSoup(content, "html.parser")\<close>: the code reads only \<open>soup.title\<close>, which is
  \<open>None\<close> or a tag, and the tag's \<open>.string\<close>, which is \<open>None\<close> unless the tag has exactly
  one string child. A tag object is truthy whatever it holds.
\<close>

datatype tag = Tag (tag_string: "string option")

datatype soup = Soup (title: "tag option")

text \<open>
  One attempt of the retry loop. \<open>GetRaises\<close>: entering \<open>self.session.get(url)\<close> raises an
  \<open>Exception\<close> (connection refused or reset, timeout, protocol error; also a session that
  was never opened). \<open>Response st b\<close>: a response with status \<open>st\<close> arrives; \<open>b\<close> is what
  \<open>await response.text()\<close> followed by the parser gives when the code gets that far,
  \<open>TextRaises\<close> when reading or decoding the body raises.
\<close>

datatype body = TextRaises | Text soup

datatype attempt = GetRaises | Response (status: int) (response_body: body)

text \<open>The network: what the attempt numbered \<open>attempt\<close> on \<open>url\<close> meets.\<close>

type_synonym network = "string \<Rightarrow> int \<Rightarrow> attempt"

text \<open>
  Observable effects, in the order performed. \<open>Sleep n\<close> stands for
  \<open>asyncio.sleep(0.1 * n)\<close>: the float product is not computed, its integer factor is
  recorded. \<open>Progress processed total found\<close> is the progress line: the code logs
  \<open>processed / total * 100\<close> with \<open>processed = i + len(chunk)\<close>, and \<open>len(all_results)\<close>;
  the elapsed wall-clock time is not modelled.
\<close>

datatype event =
    Get string
  | Sleep int
  | Debug string
  | Info_length string int
  | Progress nat nat nat

text \<open>
  The fields of \<open>SubdomainScanner\<close>. \<open>rate_limiter\<close> is the value of the
  \<open>asyncio.Semaphore\<close>; \<open>timeout\<close> and \<open>session\<close> only configure the HTTP client and are
  part of the network parameter; \<open>trace\<close> is the record of effects so far.
\<close>

record scanner =
  concurrent_requests :: int
  max_retries :: int
  chunk_size :: int
  seen_subdomains :: "string set"
  rate_limiter :: nat
  chars :: string
  trace :: "event list"

type_synonym found = "string \<times> string option"

subsection \<open>Construction\<close>

definition ascii_lowercase :: string where
  "ascii_lowercase = ''abcdefghijklmnopqrstuvwxyz''"

definition digits :: string where
  "digits = ''0123456789''"

text \<open>\<open>__init__\<close>: \<open>asyncio.Semaphore(value)\<close> raises \<open>ValueError\<close> for a negative value.\<close>

definition init :: "int \<Rightarrow> int \<Rightarrow> int \<Rightarrow> py_error + scanner" where
  "init concurrent_requests0 max_retries0 chunk_size0 =
     (if concurrent_requests0 < 0 then Inl ValueError
      else Inr \<lparr>concurrent_requests = concurrent_requests0,
                max_retries = max_retries0,
                chunk_size = chunk_size0,
                seen_subdomains = {},
                rate_limiter = nat concurrent_requests0,
                chars = ascii_lowercase @ digits,
                trace = []\<rparr>)"

subsection \<open>check_subdomain\<close>

definition full_domain_of :: "string \<Rightarrow> string \<Rightarrow> string" where
  "full_domain_of subdomain domain = subdomain @ ''.'' @ domain"

definition url_of :: "string \<Rightarrow> string" where
  "url_of full_domain = ''http://'' @ full_domain"

text \<open>\<open>soup.title.string if soup.title else "No Title"\<close>\<close>

definition title_of :: "soup \<Rightarrow> string option" where
  "title_of sp = (case title sp of Some t \<Rightarrow> tag_string t | None \<Rightarrow> Some ''No Title'')"

text \<open>The \<open>except Exception\<close> block of attempt \<open>attempt\<close>.\<close>

definition except_handler :: "int \<Rightarrow> string \<Rightarrow> int \<Rightarrow> event list" where
  "except_handler mr url attempt =
     (if attempt = mr - 1 then [Debug url] else []) @ [Sleep (attempt + 1)]"

definition after_events :: "event list \<Rightarrow> 'a \<times> event list \<Rightarrow> 'a \<times> event list" where
  "after_events evs r = (fst r, evs @ snd r)"

text \<open>
  One pass through the body of \<open>for attempt in range(self.max_retries)\<close>: \<open>Some r\<close>
  when the body executes \<open>return (full_domain, title)\<close>, \<open>None\<close> when control reaches
  the next iteration, and the effects of the pass. A response whose status is not 200
  raises nothing, so nothing is slept.
\<close>

definition attempt_once :: "network \<Rightarrow> int \<Rightarrow> string \<Rightarrow> int \<Rightarrow> found option \<times> event list" where
  "attempt_once net mr fd attempt =
     (case net (url_of fd) attempt of
        Response st b \<Rightarrow>
          if st = 200 then
            (case b of
               Text sp \<Rightarrow> (Some (fd, title_of sp), [Get (url_of fd)])
             | TextRaises \<Rightarrow> (None, Get (url_of fd) # except_handler mr (url_of fd) attempt))
          else (None, [Get (url_of fd)])
      | GetRaises \<Rightarrow> (None, Get (url_of fd) # except_handler mr (url_of fd) attempt))"

text \<open>
  The loop over the attempts still to make, with the value returned (\<open>None\<close> from the
  \<open>return None\<close> after the loop) and the effects performed.
\<close>

fun attempts :: "network \<Rightarrow> int \<Rightarrow> string \<Rightarrow> int list \<Rightarrow> found option \<times> event list" where
  "attempts net mr fd [] = (None, [])"
| "attempts net mr fd (attempt # rest) =
     (case attempt_once net mr fd attempt of
        (Some r, evs) \<Rightarrow> (Some r, evs)
      | (None, evs) \<Rightarrow> after_events evs (attempts net mr fd rest))"

text \<open>\<open>range(n)\<close> and \<open>range(a, b)\<close> of Python, on unbounded integers.\<close>

definition range1 :: "int \<Rightarrow> int list" where
  "range1 n = [0..n - 1]"

definition range2 :: "int \<Rightarrow> int \<Rightarrow> int list" where
  "range2 a b = [a..b - 1]"

text \<open>
  \<open>check_subdomain\<close>. The membership test and the insertion run without an await
  between them. \<open>async with self.rate_limiter\<close> takes one unit of the semaphore and gives
  it back on every way out of the block; run on its own, the call never resumes when the
  semaphore is at 0.
\<close>

definition check_subdomain ::
    "network \<Rightarrow> scanner \<Rightarrow> string \<Rightarrow> string \<Rightarrow> (found option \<times> scanner) outcome" where
  "check_subdomain net s subdomain domain =
     (let full_domain = full_domain_of subdomain domain in
      if full_domain \<in> seen_subdomains s then Returns (None, s)
      else
        let s1 = s\<lparr>seen_subdomains := insert full_domain (seen_subdomains s)\<rparr> in
        if rate_limiter s1 = 0 then Hangs
        else
          let s2 = s1\<lparr>rate_limiter := rate_limiter s1 - 1\<rparr>;
              r = attempts net (max_retries s2) full_domain (range1 (max_retries s2));
              s3 = s2\<lparr>trace := trace s2 @ snd r\<rparr>;
              s4 = s3\<lparr>rate_limiter := rate_limiter s3 + 1\<rparr>
          in Returns (fst r, s4))"

subsection \<open>generate_subdomains\<close>

text \<open>
  \<open>itertools.product(xs, repeat=n)\<close> for \<open>n \<ge> 0\<close>: the first position varies slowest.
\<close>

primrec product :: "'a list \<Rightarrow> nat \<Rightarrow> 'a list list" where
  "product xs 0 = [[]]"
| "product xs (Suc n) = concat (map (\<lambda>x. map ((#) x) (product xs n)) xs)"

text \<open>\<open>product\<close> raises \<open>ValueError\<close> for a negative \<open>repeat\<close>; \<open>''.join\<close> of a tuple of
  characters is the string of them.\<close>

definition generate_subdomains :: "scanner \<Rightarrow> int \<Rightarrow> py_error + string list" where
  "generate_subdomains s len =
     (if len < 0 then Inl ValueError else Inr (product (chars s) (nat len)))"

subsection \<open>scan_subdomains_chunk\<close>

text \<open>
  \<open>asyncio.gather(*tasks)\<close>: the tasks take their first stretch (membership test and
  insertion) in list order and the results come back in list order. Here each call runs
  to its end before the next starts, which is one of the schedules the event loop may
  follow; the task pool further down admits every schedule.
\<close>

fun gather :: "network \<Rightarrow> scanner \<Rightarrow> string \<Rightarrow> string list \<Rightarrow> (found option list \<times> scanner) outcome" where
  "gather net s domain [] = Returns ([], s)"
| "gather net s domain (subdomain # subdomains) =
     (case check_subdomain net s subdomain domain of
        Returns (r, s1) \<Rightarrow>
          (case gather net s1 domain subdomains of
             Returns (rs, s2) \<Rightarrow> Returns (r # rs, s2)
           | Raises e \<Rightarrow> Raises e
           | Hangs \<Rightarrow> Hangs)
      | Raises e \<Rightarrow> Raises e
      | Hangs \<Rightarrow> Hangs)"

definition scan_subdomains_chunk ::
    "network \<Rightarrow> scanner \<Rightarrow> string \<Rightarrow> string list \<Rightarrow> (found list \<times> scanner) outcome" where
  "scan_subdomains_chunk net s domain subdomains =
     (case gather net s domain subdomains of
        Returns (results, s1) \<Rightarrow> Returns (map the (filter (\<lambda>r. r \<noteq> None) results), s1)
      | Raises e \<Rightarrow> Raises e
      | Hangs \<Rightarrow> Hangs)"

subsection \<open>scan_domain\<close>

text \<open>
  \<open>range(0, n, step)\<close> for a length \<open>n\<close>: \<open>ValueError\<close> for step 0, empty for a negative
  step, else the multiples of \<open>step\<close> below \<open>n\<close>.
\<close>

definition range_from0 :: "nat \<Rightarrow> int \<Rightarrow> py_error + nat list" where
  "range_from0 n step =
     (if step = 0 then Inl ValueError
      else if step < 0 then Inr []
      else Inr (map (\<lambda>k. k * nat step) [0..<(n + nat step - 1) div nat step]))"

text \<open>
  The inner loop \<open>for i in range(0, len(subdomains), self.chunk_size)\<close> over the chunk
  starts still to visit. The body runs only for a positive \<open>chunk_size\<close>, where the slice
  \<open>subdomains[i:i + self.chunk_size]\<close> is \<open>take\<close> after \<open>drop\<close>.
\<close>

fun scan_chunks ::
    "network \<Rightarrow> string \<Rightarrow> string list \<Rightarrow> nat list \<Rightarrow> scanner \<Rightarrow> found list
      \<Rightarrow> (found list \<times> scanner) outcome" where
  "scan_chunks net domain subdomains [] s all_results = Returns (all_results, s)"
| "scan_chunks net domain subdomains (i # starts) s all_results =
     (let chunk = take (nat (chunk_size s)) (drop i subdomains) in
      case scan_subdomains_chunk net s domain chunk of
        Returns (results, s1) \<Rightarrow>
          (let all_results1 = all_results @ results;
               s2 = s1\<lparr>trace := trace s1 @
                      [Progress (i + length chunk) (length subdomains) (length all_results1)]\<rparr>
           in scan_chunks net domain subdomains starts s2 all_results1)
      | Raises e \<Rightarrow> Raises e
      | Hangs \<Rightarrow> Hangs)"

text \<open>The outer loop \<open>for length in range(min_length, max_length + 1)\<close>.\<close>

fun scan_lengths ::
    "network \<Rightarrow> string \<Rightarrow> int list \<Rightarrow> scanner \<Rightarrow> found list
      \<Rightarrow> (found list \<times> scanner) outcome" where
  "scan_lengths net domain [] s all_results = Returns (all_results, s)"
| "scan_lengths net domain (len # lens) s all_results =
     (let s1 = s\<lparr>trace := trace s @ [Info_length domain len]\<rparr> in
      case generate_subdomains s1 len of
        Inl e \<Rightarrow> Raises e
      | Inr subdomains \<Rightarrow>
          (case range_from0 (length subdomains) (chunk_size s1) of
             Inl e \<Rightarrow> Raises e
           | Inr starts \<Rightarrow>
               (case scan_chunks net domain subdomains starts s1 all_results of
                  Returns (all_results1, s2) \<Rightarrow> scan_lengths net domain lens s2 all_results1
                | Raises e \<Rightarrow> Raises e
                | Hangs \<Rightarrow> Hangs)))"

definition scan_domain ::
    "network \<Rightarrow> scanner \<Rightarrow> string \<Rightarrow> int \<Rightarrow> int \<Rightarrow> (found list \<times> scanner) outcome" where
  "scan_domain net s domain min_length max_length =
     scan_lengths net domain (range2 min_length (max_length + 1)) s []"

subsection \<open>The scanner that main constructs\<close>

text \<open>\<open>SubdomainScanner(concurrent_requests=50, timeout=1.0, max_retries=2, chunk_size=1000)\<close>\<close>

definition default_scanner :: scanner where
  "default_scanner =
     \<lparr>concurrent_requests = 50, max_retries = 2, chunk_size = 1000, seen_subdomains = {},
      rate_limiter = 50, chars = ''abcdefghijklmnopqrstuvwxyz0123456789'', trace = []\<rparr>"

subsection \<open>Concurrent calls of check_subdomain\<close>

text \<open>
  The event loop runs one coroutine at a time and switches only at an \<open>await\<close> that
  suspends. A call of \<open>check_subdomain\<close> is therefore at one of these places:
  \<^item> \<open>Created\<close>: the coroutine exists (\<open>gather\<close> holds it) and none of its body has run;
  \<^item> \<open>Skipped\<close>: it returned \<open>None\<close> from the membership test;
  \<^item> \<open>Waiting\<close>: it has inserted its name and is suspended entering
    \<open>async with self.rate_limiter\<close>;
  \<^item> \<open>Running as\<close>: it holds a unit of the semaphore and is suspended in a request, in
    reading a body or in a sleep; \<open>as\<close> are the attempts still to make;
  \<^item> \<open>Finished r\<close>: it left the block and returned \<open>r\<close>.
\<close>

datatype position = Created | Skipped | Waiting | Running "int list" | Finished "found option"

record task =
  task_subdomain :: string
  task_domain :: string
  position :: position

definition task_fqc :: "task \<Rightarrow> string" where
  "task_fqc t = full_domain_of (task_subdomain t) (task_domain t)"

text \<open>
  Holding a unit of the semaphore: inside the \<open>async with self.rate_limiter\<close> block, with
  a request, a body read or a sleep in progress.
\<close>

fun holds_unit :: "position \<Rightarrow> bool" where
  "holds_unit (Running as) = True"
| "holds_unit p = False"

text \<open>
  Dispatched and not completed: the call was created (\<open>gather\<close> holds it) and has not yet
  returned, whether or not it has been admitted by the semaphore.
\<close>

fun unresolved :: "position \<Rightarrow> bool" where
  "unresolved Created = True"
| "unresolved Waiting = True"
| "unresolved (Running as) = True"
| "unresolved Skipped = False"
| "unresolved (Finished r) = False"

text \<open>Past the insertion \<open>self.seen_subdomains.add(full_domain)\<close>.\<close>

fun past_check :: "position \<Rightarrow> bool" where
  "past_check Created = False"
| "past_check Skipped = False"
| "past_check p = True"

text \<open>
  One move of the event loop on the scanner and its calls. Any call that can move may be
  the next to move, which covers the order the loop really follows. The first stretch of
  a call (test, insertion) is one move, since no \<open>await\<close> lies in it; taking the
  semaphore needs its value positive; each pass of the retry loop is a move, and so is
  leaving the block, which gives the unit back.
\<close>

inductive step :: "network \<Rightarrow> scanner \<times> task list \<Rightarrow> scanner \<times> task list \<Rightarrow> bool"
  for net :: network where
  spawn:
    "step net (s, ts)
       (s, ts @ [\<lparr>task_subdomain = subdomain, task_domain = domain, position = Created\<rparr>])"
| start_seen:
    "i < length ts \<Longrightarrow> position (ts ! i) = Created \<Longrightarrow>
     task_fqc (ts ! i) \<in> seen_subdomains s \<Longrightarrow>
     step net (s, ts) (s, ts[i := (ts ! i)\<lparr>position := Skipped\<rparr>])"
| start_new:
    "i < length ts \<Longrightarrow> position (ts ! i) = Created \<Longrightarrow>
     task_fqc (ts ! i) \<notin> seen_subdomains s \<Longrightarrow>
     step net (s, ts)
       (s\<lparr>seen_subdomains := insert (task_fqc (ts ! i)) (seen_subdomains s)\<rparr>,
        ts[i := (ts ! i)\<lparr>position := Waiting\<rparr>])"
| acquire:
    "i < length ts \<Longrightarrow> position (ts ! i) = Waiting \<Longrightarrow> 0 < rate_limiter s \<Longrightarrow>
     step net (s, ts)
       (s\<lparr>rate_limiter := rate_limiter s - 1\<rparr>,
        ts[i := (ts ! i)\<lparr>position := Running (range1 (max_retries s))\<rparr>])"
| pass_returns:
    "i < length ts \<Longrightarrow> position (ts ! i) = Running (attempt # rest) \<Longrightarrow>
     attempt_once net (max_retries s) (task_fqc (ts ! i)) attempt = (Some r, evs) \<Longrightarrow>
     step net (s, ts)
       (s\<lparr>trace := trace s @ evs, rate_limiter := rate_limiter s + 1\<rparr>,
        ts[i := (ts ! i)\<lparr>position := Finished (Some r)\<rparr>])"
| pass_continues:
    "i < length ts \<Longrightarrow> position (ts ! i) = Running (attempt # rest) \<Longrightarrow>
     attempt_once net (max_retries s) (task_fqc (ts ! i)) attempt = (None, evs) \<Longrightarrow>
     step net (s, ts)
       (s\<lparr>trace := trace s @ evs\<rparr>, ts[i := (ts ! i)\<lparr>position := Running rest\<rparr>])"
| loop_ends:
    "i < length ts \<Longrightarrow> position (ts ! i) = Running [] \<Longrightarrow>
     step net (s, ts)
       (s\<lparr>rate_limiter := rate_limiter s + 1\<rparr>,
        ts[i := (ts ! i)\<lparr>position := Finished None\<rparr>])"

subsection \<open>Notions the properties are stated with\<close>

text \<open>
  The order of the alphabet as \<open>self.chars\<close> lists it: \<open>a\<close> before \<open>b\<close> when \<open>a\<close> stands at an
  earlier index. (It is not the order of the character codes: the letters come first.)
\<close>

definition alphabet_order :: "'a list \<Rightarrow> ('a \<times> 'a) set" where
  "alphabet_order cs = {(cs ! i, cs ! j) | i j. i < j \<and> j < length cs}"

text \<open>An attempt that ends in the \<open>except\<close> block, and an attempt that does not return.\<close>

fun raised :: "attempt \<Rightarrow> bool" where
  "raised GetRaises = True"
| "raised (Response st TextRaises) = (st = 200)"
| "raised (Response st (Text sp)) = False"

fun failed :: "attempt \<Rightarrow> bool" where
  "failed GetRaises = True"
| "failed (Response st TextRaises) = True"
| "failed (Response st (Text sp)) = (st \<noteq> 200)"

text \<open>How many calls hold a unit of the semaphore.\<close>

definition holding_count :: "task list \<Rightarrow> nat" where
  "holding_count ts = length (filter (\<lambda>t. holds_unit (position t)) ts)"

text \<open>How many calls are dispatched and not completed.\<close>

definition unresolved_count :: "task list \<Rightarrow> nat" where
  "unresolved_count ts = length (filter (\<lambda>t. unresolved (position t)) ts)"

text \<open>How many calls for the name \<open>f\<close> went past the membership test.\<close>

definition past_check_count :: "string \<Rightarrow> task list \<Rightarrow> nat" where
  "past_check_count f ts = length (filter (\<lambda>t. task_fqc t = f \<and> past_check (position t)) ts)"

text \<open>
  The two invariants of the pool: at most one call per name is past the membership test,
  and none for a name outside the seen set; every request so far went to a name in the
  seen set.
\<close>

definition once_inv :: "scanner \<Rightarrow> task list \<Rightarrow> bool" where
  "once_inv s ts \<longleftrightarrow>
     (\<forall>f. past_check_count f ts \<le> (if f \<in> seen_subdomains s then 1 else 0))"

definition requests_seen :: "scanner \<Rightarrow> bool" where
  "requests_seen s \<longleftrightarrow> (\<forall>f. Get (url_of f) \<in> set (trace s) \<longrightarrow> f \<in> seen_subdomains s)"

text \<open>The full names of a list of labels under a domain.\<close>

definition fqcs :: "string \<Rightarrow> string list \<Rightarrow> string set" where
  "fqcs domain labels = (\<lambda>l. full_domain_of l domain) ` set labels"

text \<open>\<open>[r for r in results if r is not None]\<close>\<close>

definition somes :: "'a option list \<Rightarrow> 'a list" where
  "somes rs = map the (filter (\<lambda>r. r \<noteq> None) rs)"

text \<open>
  What a gather over \<open>labels\<close> returns and performs, as a function of the seen set and
  \<open>max_retries\<close> alone; lemma \<open>gather_probes\<close> shows that \<open>gather\<close> computes it whenever the
  semaphore is free. The properties of the scan are proved through it.
\<close>

fun probes ::
    "network \<Rightarrow> int \<Rightarrow> string \<Rightarrow> string set \<Rightarrow> string list
      \<Rightarrow> found option list \<times> event list" where
  "probes net mr domain seen [] = ([], [])"
| "probes net mr domain seen (l # ls) =
     (if full_domain_of l domain \<in> seen
      then (None # fst (probes net mr domain seen ls), snd (probes net mr domain seen ls))
      else (fst (attempts net mr (full_domain_of l domain) (range1 mr))
              # fst (probes net mr domain (insert (full_domain_of l domain) seen) ls),
            snd (attempts net mr (full_domain_of l domain) (range1 mr))
              @ snd (probes net mr domain (insert (full_domain_of l domain) seen) ls)))"

text \<open>The URLs requested in a trace, in order.\<close>

fun requests :: "event list \<Rightarrow> string list" where
  "requests [] = []"
| "requests (Get u # es) = u # requests es"
| "requests (e # es) = requests es"

text \<open>The progress lines of a trace, each as (processed, total).\<close>

fun progress_of :: "event list \<Rightarrow> (nat \<times> nat) list" where
  "progress_of [] = []"
| "progress_of (Progress p t f # es) = (p, t) # progress_of es"
| "progress_of (e # es) = progress_of es"

text \<open>
  A trace cut at its progress lines: for each progress line, the URLs requested since
  the progress line before it. Requests after the last progress line are dropped.
\<close>

fun chunk_requests :: "event list \<Rightarrow> string list list" where
  "chunk_requests [] = []"
| "chunk_requests (Progress p t f # es) = [] # chunk_requests es"
| "chunk_requests (Get u # es) =
     (case chunk_requests es of [] \<Rightarrow> [] | r # rs \<Rightarrow> (u # r) # rs)"
| "chunk_requests (e # es) = chunk_requests es"

text \<open>A trace that is empty or ends with a progress line.\<close>

definition closed_trace :: "event list \<Rightarrow> bool" where
  "closed_trace T \<longleftrightarrow> T = [] \<or> (\<exists>T' p t f. T = T' @ [Progress p t f])"

text \<open>
  The chunks of a candidate list: the starts \<open>0, c, 2c, ...\<close> below its length, and the
  slice of at most \<open>c\<close> elements at each start.
\<close>

definition chunk_starts :: "nat \<Rightarrow> nat \<Rightarrow> nat list" where
  "chunk_starts n c = map (\<lambda>k. k * c) [0..<(n + c - 1) div c]"

definition chunks_at :: "nat \<Rightarrow> 'a list \<Rightarrow> nat list \<Rightarrow> 'a list list" where
  "chunks_at c xs starts = map (\<lambda>i. take c (drop i xs)) starts"

definition chunks :: "nat \<Rightarrow> 'a list \<Rightarrow> 'a list list" where
  "chunks c xs = chunks_at c xs (chunk_starts (length xs) c)"

text \<open>All candidates of a list of lengths, length by length, each in generator order.\<close>

definition candidates :: "string \<Rightarrow> int list \<Rightarrow> string list" where
  "candidates cs lens = concat (map (\<lambda>L. product cs (nat L)) lens)"

text \<open>
  The progress lines of one length with \<open>n\<close> candidates and chunk size \<open>c\<close>: at the chunk
  that starts at \<open>i\<close>, processed is \<open>i\<close> plus the actual size \<open>min c (n - i)\<close> of the chunk.
\<close>

definition length_progress :: "nat \<Rightarrow> nat \<Rightarrow> (nat \<times> nat) list" where
  "length_progress c n = map (\<lambda>i. (i + min c (n - i), n)) (chunk_starts n c)"

text \<open>The value a call returned, if it returned.\<close>

definition result_of :: "'a outcome \<Rightarrow> 'a option" where
  "result_of r = (case r of Returns x \<Rightarrow> Some x | Raises e \<Rightarrow> None | Hangs \<Rightarrow> None)"

section \<open>Properties\<close>

subsection \<open>The candidate generator\<close>

lemma length_product: "length (product xs n) = length xs ^ n"
proof (induction n)
  case 0
  show ?case by simp
next
  case (Suc n)
  have "length (concat (map (\<lambda>x. map ((#) x) (product xs n)) xs))
        = sum_list (map (\<lambda>x. length xs ^ n) xs)"
    by (simp add: length_concat comp_def Suc)
  also have "\<dots> = length xs * length xs ^ n"
    by (simp add: sum_list_triv)
  finally show ?case by simp
qed

lemma set_product: "set (product xs n) = {ys. length ys = n \<and> set ys \<subseteq> set xs}"
proof (induction n)
  case 0
  show ?case by auto
next
  case (Suc n)
  show ?case
  proof (rule set_eqI)
    fix zs
    show "zs \<in> set (product xs (Suc n)) \<longleftrightarrow> zs \<in> {ys. length ys = Suc n \<and> set ys \<subseteq> set xs}"
      by (cases zs) (auto simp: Suc)
  qed
qed

lemma sorted_wrt_concat_map:
  assumes "sorted_wrt R xs"
    and "\<And>x. x \<in> set xs \<Longrightarrow> sorted_wrt S (f x)"
    and "\<And>x y u v. R x y \<Longrightarrow> u \<in> set (f x) \<Longrightarrow> v \<in> set (f y) \<Longrightarrow> S u v"
  shows "sorted_wrt S (concat (map f xs))"
  using assms
proof (induction xs)
  case Nil
  show ?case by simp
next
  case (Cons x xs)
  have "sorted_wrt S (concat (map f xs))"
    using Cons by simp
  moreover have "sorted_wrt S (f x)"
    using Cons.prems(2) by simp
  moreover have "\<forall>u\<in>set (f x). \<forall>v\<in>set (concat (map f xs)). S u v"
    using Cons.prems(1,3) by auto
  ultimately show ?case
    by (simp add: sorted_wrt_append)
qed

lemma sorted_wrt_product:
  assumes "sorted_wrt (\<lambda>a b. (a, b) \<in> r) xs"
  shows "sorted_wrt (\<lambda>u v. (u, v) \<in> lexord r) (product xs n)"
proof (induction n)
  case 0
  show ?case by simp
next
  case (Suc n)
  show ?case
    unfolding product.simps
  proof (rule sorted_wrt_concat_map [OF assms])
    fix x
    show "sorted_wrt (\<lambda>u v. (u, v) \<in> lexord r) (map ((#) x) (product xs n))"
      using Suc by (simp add: sorted_wrt_map sorted_wrt_mono_rel [where P = "\<lambda>u v. (u, v) \<in> lexord r"])
  next
    fix x y u v
    assume "(x, y) \<in> r" "u \<in> set (map ((#) x) (product xs n))" "v \<in> set (map ((#) y) (product xs n))"
    then show "(u, v) \<in> lexord r" by auto
  qed
qed

lemma distinct_product: "distinct xs \<Longrightarrow> distinct (product xs n)"
proof (induction n)
  case 0
  show ?case by simp
next
  case (Suc n)
  then have d: "distinct (product xs n)" by simp
  show ?case
    unfolding product.simps
  proof (rule distinct_concat)
    show "distinct (map (\<lambda>x. map ((#) x) (product xs n)) xs)"
    proof (cases "product xs n")
      case Nil
      with length_product [of xs n] have "xs = []" by simp
      then show ?thesis by simp
    next
      case (Cons p ps)
      have "inj_on (\<lambda>x. map ((#) x) (product xs n)) (set xs)"
        by (rule inj_onI) (simp add: Cons)
      with Suc.prems show ?thesis by (simp add: distinct_map)
    qed
  next
    fix ys assume "ys \<in> set (map (\<lambda>x. map ((#) x) (product xs n)) xs)"
    then show "distinct ys" using d by (auto simp: distinct_map)
  next
    fix ys zs
    assume "ys \<in> set (map (\<lambda>x. map ((#) x) (product xs n)) xs)"
      "zs \<in> set (map (\<lambda>x. map ((#) x) (product xs n)) xs)" "ys \<noteq> zs"
    then show "set ys \<inter> set zs = {}" by auto
  qed
qed

lemma sorted_wrt_alphabet_order: "sorted_wrt (\<lambda>a b. (a, b) \<in> alphabet_order cs) cs"
  unfolding sorted_wrt_iff_nth_less alphabet_order_def by blast

lemma distinct_chars: "distinct (ascii_lowercase @ digits)"
  by (simp add: ascii_lowercase_def digits_def)

lemma product_1: "product xs (Suc 0) = map (\<lambda>x. [x]) xs"
  by (induction xs) simp_all


lemma init_chars: "init c m k = Inr s \<Longrightarrow> chars s = ascii_lowercase @ digits"
  by (auto simp: init_def split: if_splits)

lemma length_chars: "length (ascii_lowercase @ digits) = 36"
  by (simp add: ascii_lowercase_def digits_def)

lemma init_default: "init 50 2 1000 = Inr default_scanner"
  by (simp add: init_def default_scanner_def ascii_lowercase_def digits_def)

text \<open>
  C4. For every length \<open>L \<ge> 1\<close>, \<open>generate_subdomains(L)\<close> on a constructed scanner returns
  \<open>36 ^ L\<close> pairwise distinct strings, each of \<open>L\<close> characters of the alphabet a-z, 0-9,
  in lexicographic order over the alphabet as \<open>self.chars\<close> lists it (letters before
  digits); for \<open>L = 1\<close> the result is the 36 one-character strings a to z, then 0 to 9.
\<close>

theorem generate_subdomains_product:
  assumes "init c m k = Inr s" and "1 \<le> L"
  shows "\<exists>labels. generate_subdomains s L = Inr labels
           \<and> length labels = 36 ^ nat L
           \<and> distinct labels
           \<and> (\<forall>l \<in> set labels. length l = nat L \<and> set l \<subseteq> set (ascii_lowercase @ digits))
           \<and> sorted_wrt (\<lambda>u v. (u, v) \<in> lexord (alphabet_order (ascii_lowercase @ digits))) labels
           \<and> (L = 1 \<longrightarrow> labels =
                 [''a'', ''b'', ''c'', ''d'', ''e'', ''f'', ''g'', ''h'', ''i'', ''j'', ''k'', ''l'', ''m'',
                  ''n'', ''o'', ''p'', ''q'', ''r'', ''s'', ''t'', ''u'', ''v'', ''w'', ''x'', ''y'', ''z'',
                  ''0'', ''1'', ''2'', ''3'', ''4'', ''5'', ''6'', ''7'', ''8'', ''9''])"
proof -
  let ?cs = "ascii_lowercase @ digits"
  let ?labels = "product ?cs (nat L)"
  have cs: "chars s = ?cs"
    using assms(1) by (rule init_chars)
  have gen: "generate_subdomains s L = Inr ?labels"
    using assms(2) by (simp add: generate_subdomains_def cs)
  have len: "length ?labels = 36 ^ nat L"
    by (simp only: length_product length_chars)
  have dist: "distinct ?labels"
    by (rule distinct_product [OF distinct_chars])
  have elems: "\<forall>l \<in> set ?labels. length l = nat L \<and> set l \<subseteq> set ?cs"
    by (simp only: set_product) blast
  have sorted: "sorted_wrt (\<lambda>u v. (u, v) \<in> lexord (alphabet_order ?cs)) ?labels"
    by (rule sorted_wrt_product [OF sorted_wrt_alphabet_order])
  have one: "L = 1 \<longrightarrow> ?labels =
                 [''a'', ''b'', ''c'', ''d'', ''e'', ''f'', ''g'', ''h'', ''i'', ''j'', ''k'', ''l'', ''m'',
                  ''n'', ''o'', ''p'', ''q'', ''r'', ''s'', ''t'', ''u'', ''v'', ''w'', ''x'', ''y'', ''z'',
                  ''0'', ''1'', ''2'', ''3'', ''4'', ''5'', ''6'', ''7'', ''8'', ''9'']"
    by (simp add: product_1 ascii_lowercase_def digits_def)
  from gen len dist elems sorted one show ?thesis
    by blast
qed

theorem generate_subdomains_product_witness:
  "\<exists>labels. generate_subdomains default_scanner 2 = Inr labels
      \<and> length labels = 1296 \<and> distinct labels"
proof -
  have "(1::int) \<le> 2" by simp
  from generate_subdomains_product [OF init_default this]
  show ?thesis by auto
qed

text \<open>
  C6 as stated (a length below 1 or an empty alphabet fails at call time) does not hold:
  length 0 returns the list holding the empty label.
\<close>

theorem generate_subdomains_length_0_counterexample:
  "generate_subdomains default_scanner 0 = Inr ['''']"
  by (simp add: generate_subdomains_def)

text \<open>
  C6, amended. \<open>generate_subdomains\<close> has no check of its own. A negative length raises
  \<open>ValueError\<close> (from \<open>itertools.product\<close>) at call time; length 0 returns the one-element list
  holding the empty string; an empty alphabet with a positive length returns the empty
  list.
\<close>

theorem generate_subdomains_invalid:
  "(L < 0 \<longrightarrow> generate_subdomains s L = Inl ValueError)
   \<and> generate_subdomains s 0 = Inr ['''']
   \<and> (0 < L \<and> chars s = [] \<longrightarrow> generate_subdomains s L = Inr [])"
proof -
  have "0 < L \<Longrightarrow> product ([] :: string) (nat L) = []"
    by (cases "nat L") simp_all
  then show ?thesis
    by (simp add: generate_subdomains_def)
qed

theorem generate_subdomains_invalid_witness:
  "generate_subdomains default_scanner (- 1) = Inl ValueError
   \<and> generate_subdomains (default_scanner\<lparr>chars := []\<rparr>) 1 = Inr []"
  using generate_subdomains_invalid [of "- 1" default_scanner]
    generate_subdomains_invalid [of 1 "default_scanner\<lparr>chars := []\<rparr>"]
  by simp

subsection \<open>One call of check_subdomain\<close>

lemma attempt_once_failed:
  "failed (net (url_of fd) k) \<Longrightarrow>
   attempt_once net mr fd k =
     (None, Get (url_of fd) #
        (if raised (net (url_of fd) k) then except_handler mr (url_of fd) k else []))"
  by (cases "net (url_of fd) k" rule: failed.cases) (simp_all add: attempt_once_def)

lemma attempt_once_found:
  "net (url_of fd) k = Response 200 (Text sp) \<Longrightarrow>
   attempt_once net mr fd k = (Some (fd, title_of sp), [Get (url_of fd)])"
  by (simp add: attempt_once_def)

lemma attempts_all_failed:
  "\<forall>k \<in> set ks. failed (net (url_of fd) k) \<Longrightarrow>
   attempts net mr fd ks =
     (None, concat (map (\<lambda>k. Get (url_of fd) #
        (if raised (net (url_of fd) k) then except_handler mr (url_of fd) k else [])) ks))"
  by (induction ks) (simp_all add: attempt_once_failed after_events_def)

lemma attempts_found:
  "\<forall>j \<in> set pre. failed (net (url_of fd) j) \<Longrightarrow>
   net (url_of fd) k = Response 200 (Text sp) \<Longrightarrow>
   fst (attempts net mr fd (pre @ k # post)) = Some (fd, title_of sp)"
  by (induction pre) (simp_all add: attempt_once_failed attempt_once_found after_events_def)



lemma range1_split: "0 \<le> k \<Longrightarrow> k < n \<Longrightarrow> range1 n = [0..k - 1] @ k # [k + 1..n - 1]"
  unfolding range1_def by (rule upto_split3) simp_all

lemma check_subdomain_new:
  assumes "full_domain_of subdomain domain \<notin> seen_subdomains s" and "0 < rate_limiter s"
  shows "check_subdomain net s subdomain domain =
     Returns (fst (attempts net (max_retries s) (full_domain_of subdomain domain) (range1 (max_retries s))),
       s\<lparr>seen_subdomains := insert (full_domain_of subdomain domain) (seen_subdomains s),
         trace := trace s @
           snd (attempts net (max_retries s) (full_domain_of subdomain domain) (range1 (max_retries s)))\<rparr>)"
  using assms by (simp add: check_subdomain_def Let_def)

lemma check_subdomain_seen:
  "full_domain_of subdomain domain \<in> seen_subdomains s \<Longrightarrow>
   check_subdomain net s subdomain domain = Returns (None, s)"
  by (simp add: check_subdomain_def)


lemma upto_0_1: "[0..1] = [0, 1 :: int]"
  by (simp add: upto_rec1)

lemma range1_2: "range1 2 = [0, 1]"
  by (simp add: range1_def upto_0_1)







text \<open>
  A title element that is empty or holds nested markup has \<open>.string = None\<close>; the pair
  returned then carries \<open>None\<close> where the annotation \<open>Tuple[str, str]\<close> promises a string.
\<close>

lemma check_subdomain_title_without_string:
  "check_subdomain (\<lambda>url attempt. Response 200 (Text (Soup (Some (Tag None)))))
     default_scanner ''a'' ''x'' =
   Returns (Some (''a.x'', None),
     default_scanner\<lparr>seen_subdomains := {''a.x''}, trace := [Get ''http://a.x'']\<rparr>)"
  by (simp add: check_subdomain_def default_scanner_def full_domain_of_def url_of_def
      range1_2 Let_def attempt_once_def after_events_def title_of_def)

subsection \<open>Concurrent calls: the semaphore\<close>

lemma length_filter_update:
  "i < length xs \<Longrightarrow>
   length (filter P (xs[i := y])) + (if P (xs ! i) then 1 else 0)
     = length (filter P xs) + (if P y then 1 else 0)"
proof (induction xs arbitrary: i)
  case Nil
  then show ?case by simp
next
  case (Cons x xs)
  show ?case
  proof (cases i)
    case 0
    then show ?thesis by simp
  next
    case (Suc j)
    with Cons.prems have "j < length xs" by simp
    from Cons.IH [OF this] Suc show ?thesis by simp
  qed
qed

lemma holding_count_update:
  "i < length ts \<Longrightarrow>
   holding_count (ts[i := t]) + (if holds_unit (position (ts ! i)) then 1 else 0)
     = holding_count ts + (if holds_unit (position t) then 1 else 0)"
  unfolding holding_count_def by (rule length_filter_update)

lemma holding_count_snoc:
  "holding_count (ts @ [t]) = holding_count ts + (if holds_unit (position t) then 1 else 0)"
  by (simp add: holding_count_def)

lemma step_slots:
  assumes "step net (s, ts) (s', ts')"
  shows "holding_count ts' + rate_limiter s' = holding_count ts + rate_limiter s"
  using assms
proof cases
  case (spawn subdomain domain)
  then show ?thesis by (simp add: holding_count_snoc)
next
  case (start_seen i)
  with holding_count_update [of i ts "(ts ! i)\<lparr>position := Skipped\<rparr>"]
  show ?thesis by simp
next
  case (start_new i)
  with holding_count_update [of i ts "(ts ! i)\<lparr>position := Waiting\<rparr>"]
  show ?thesis by simp
next
  case (acquire i)
  with holding_count_update [of i ts "(ts ! i)\<lparr>position := Running (range1 (max_retries s))\<rparr>"]
  show ?thesis by simp
next
  case (pass_returns i attempt rest r evs)
  with holding_count_update [of i ts "(ts ! i)\<lparr>position := Finished (Some r)\<rparr>"]
  show ?thesis by simp
next
  case (pass_continues i attempt rest evs)
  with holding_count_update [of i ts "(ts ! i)\<lparr>position := Running rest\<rparr>"]
  show ?thesis by simp
next
  case (loop_ends i)
  with holding_count_update [of i ts "(ts ! i)\<lparr>position := Finished None\<rparr>"]
  show ?thesis by simp
qed

lemma step_config:
  assumes "step net (s, ts) (s', ts')"
  shows "concurrent_requests s' = concurrent_requests s \<and> max_retries s' = max_retries s
         \<and> chunk_size s' = chunk_size s \<and> chars s' = chars s"
  using assms by cases simp_all

lemma steps_slots:
  assumes "(step net)\<^sup>*\<^sup>* (s, ts) (s', ts')"
  shows "holding_count ts' + rate_limiter s' = holding_count ts + rate_limiter s
         \<and> concurrent_requests s' = concurrent_requests s"
  using assms
proof (induction "(s', ts')" arbitrary: s' ts' rule: rtranclp_induct)
  case base
  show ?case by simp
next
  case (step y)
  obtain s1 ts1 where y: "y = (s1, ts1)" by (cases y)
  from step.hyps(3) [OF y] step_slots [of net s1 ts1 s' ts'] step_config [of net s1 ts1 s' ts'] step.hyps(2) y
  show ?case by simp
qed

lemma init_limiter:
  "init c m k = Inr s \<Longrightarrow> int (rate_limiter s) = concurrent_requests s"
  by (auto simp: init_def split: if_splits)

lemma init_one_slot:
  "init 1 2 1000 = Inr (default_scanner\<lparr>concurrent_requests := 1, rate_limiter := 1\<rparr>)"
  by (simp add: init_def default_scanner_def ascii_lowercase_def digits_def)

lemma steps_trans3:
  "step net a b \<Longrightarrow> (step net)\<^sup>*\<^sup>* b c \<Longrightarrow> (step net)\<^sup>*\<^sup>* a c"
  by (rule converse_rtranclp_into_rtranclp)

text \<open>Two calls on a semaphore of one unit: both start, the first takes the unit.\<close>

lemma run_two_calls:
  "(step net)\<^sup>*\<^sup>*
     (default_scanner\<lparr>concurrent_requests := 1, rate_limiter := 1\<rparr>, [])
     (default_scanner\<lparr>concurrent_requests := 1, rate_limiter := 0,
        seen_subdomains := {''b.x'', ''a.x''}\<rparr>,
      [\<lparr>task_subdomain = ''a'', task_domain = ''x'', position = Running [0, 1]\<rparr>,
       \<lparr>task_subdomain = ''b'', task_domain = ''x'', position = Waiting\<rparr>])"
proof -
  let ?s = "default_scanner\<lparr>concurrent_requests := 1, rate_limiter := 1\<rparr>"
  let ?a = "\<lambda>p. \<lparr>task_subdomain = ''a'', task_domain = ''x'', position = p\<rparr>"
  let ?b = "\<lambda>p. \<lparr>task_subdomain = ''b'', task_domain = ''x'', position = p\<rparr>"
  have 1: "step net (?s, []) (?s, [?a Created])"
    using step.spawn [of net ?s "[]" "''a''" "''x''"] by simp
  have 2: "step net (?s, [?a Created]) (?s, [?a Created, ?b Created])"
    using step.spawn [of net ?s "[?a Created]" "''b''" "''x''"] by simp
  have 3: "step net (?s, [?a Created, ?b Created])
             (?s\<lparr>seen_subdomains := {''a.x''}\<rparr>, [?a Waiting, ?b Created])"
    using step.start_new [of 0 "[?a Created, ?b Created]" ?s net]
    by (simp add: task_fqc_def full_domain_of_def default_scanner_def)
  have 4: "step net (?s\<lparr>seen_subdomains := {''a.x''}\<rparr>, [?a Waiting, ?b Created])
             (?s\<lparr>seen_subdomains := {''b.x'', ''a.x''}\<rparr>, [?a Waiting, ?b Waiting])"
    using step.start_new [of 1 "[?a Waiting, ?b Created]" "?s\<lparr>seen_subdomains := {''a.x''}\<rparr>" net]
    by (simp add: task_fqc_def full_domain_of_def default_scanner_def)
  have 5: "step net (?s\<lparr>seen_subdomains := {''b.x'', ''a.x''}\<rparr>, [?a Waiting, ?b Waiting])
             (default_scanner\<lparr>concurrent_requests := 1, rate_limiter := 0,
                seen_subdomains := {''b.x'', ''a.x''}\<rparr>,
              [?a (Running [0, 1]), ?b Waiting])"
    using step.acquire [of 0 "[?a Waiting, ?b Waiting]" "?s\<lparr>seen_subdomains := {''b.x'', ''a.x''}\<rparr>" net]
    by (simp add: default_scanner_def range1_def upto_rec1)
  from 1 2 3 4 5 show ?thesis
    by (meson steps_trans3 rtranclp.rtrancl_refl)
qed

text \<open>
  C3 as stated (at every instant the number of dispatched-but-not-completed probe
  operations is at most \<open>concurrent_requests\<close>) does not hold: \<open>gather\<close> dispatches all calls
  of a chunk at once, and a call that finds the semaphore taken waits, dispatched and
  unresolved. On a scanner constructed with \<open>concurrent_requests = 1\<close>, two calls are
  unresolved at once: one holds the unit, the other waits for it.
\<close>

theorem unresolved_exceeds_limit_counterexample:
  "init 1 2 1000 = Inr (default_scanner\<lparr>concurrent_requests := 1, rate_limiter := 1\<rparr>)
   \<and> (step (\<lambda>url attempt. GetRaises))\<^sup>*\<^sup>*
       (default_scanner\<lparr>concurrent_requests := 1, rate_limiter := 1\<rparr>, [])
       (default_scanner\<lparr>concurrent_requests := 1, rate_limiter := 0,
          seen_subdomains := {''b.x'', ''a.x''}\<rparr>,
        [\<lparr>task_subdomain = ''a'', task_domain = ''x'', position = Running [0, 1]\<rparr>,
         \<lparr>task_subdomain = ''b'', task_domain = ''x'', position = Waiting\<rparr>])
   \<and> concurrent_requests (default_scanner\<lparr>concurrent_requests := 1, rate_limiter := 0,
          seen_subdomains := {''b.x'', ''a.x''}\<rparr>)
       < int (unresolved_count
          [\<lparr>task_subdomain = ''a'', task_domain = ''x'', position = Running [0, 1]\<rparr>,
           \<lparr>task_subdomain = ''b'', task_domain = ''x'', position = Waiting\<rparr>])"
  using init_one_slot run_two_calls [of "\<lambda>url attempt. GetRaises"]
  by (simp add: unresolved_count_def)

text \<open>
  C3, amended. On a constructed scanner, whatever calls of \<open>check_subdomain\<close> are created
  and however the event loop interleaves them, at every instant the number of calls that
  hold a unit of the semaphore (those inside the \<open>async with\<close> block, with a request, a
  body read or a sleep in progress) is at most \<open>concurrent_requests\<close>. The calls that are
  dispatched and still wait for the semaphore are not bounded by it.
\<close>

theorem holders_bounded:
  assumes "init c m k = Inr s0" and "(step net)\<^sup>*\<^sup>* (s0, []) (s, ts)"
  shows "int (holding_count ts) \<le> concurrent_requests s"
proof -
  from steps_slots [OF assms(2)]
  have "holding_count ts + rate_limiter s = rate_limiter s0"
    and "concurrent_requests s = concurrent_requests s0"
    by (simp_all add: holding_count_def)
  with init_limiter [OF assms(1)] show ?thesis by linarith
qed

theorem holders_bounded_witness:
  "int (holding_count
      [\<lparr>task_subdomain = ''a'', task_domain = ''x'', position = Running [0, 1]\<rparr>,
       \<lparr>task_subdomain = ''b'', task_domain = ''x'', position = Waiting\<rparr>])
   \<le> concurrent_requests (default_scanner\<lparr>concurrent_requests := 1, rate_limiter := 0,
        seen_subdomains := {''b.x'', ''a.x''}\<rparr>)"
  by (rule holders_bounded [OF init_one_slot run_two_calls])

subsection \<open>Concurrent calls: the seen set\<close>

lemma task_fqc_position [simp]: "task_fqc (t\<lparr>position := p\<rparr>) = task_fqc t"
  by (simp add: task_fqc_def)

lemma past_check_count_update:
  "i < length ts \<Longrightarrow>
   past_check_count f (ts[i := t])
     + (if task_fqc (ts ! i) = f \<and> past_check (position (ts ! i)) then 1 else 0)
     = past_check_count f ts + (if task_fqc t = f \<and> past_check (position t) then 1 else 0)"
  unfolding past_check_count_def by (rule length_filter_update)

lemma past_check_count_same:
  assumes "i < length ts" and "past_check p = past_check (position (ts ! i))"
  shows "past_check_count f (ts[i := (ts ! i)\<lparr>position := p\<rparr>]) = past_check_count f ts"
  using past_check_count_update [OF assms(1), of f "(ts ! i)\<lparr>position := p\<rparr>"] assms(2)
  by (simp split: if_splits)

lemma past_check_count_snoc:
  "past_check_count f (ts @ [t])
     = past_check_count f ts + (if task_fqc t = f \<and> past_check (position t) then 1 else 0)"
  by (simp add: past_check_count_def)

lemma step_once_inv:
  assumes "step net (s, ts) (s', ts')" and "once_inv s ts"
  shows "once_inv s' ts'"
  using assms(1)
proof cases
  case (spawn subdomain domain)
  with assms(2) show ?thesis
    by (simp add: once_inv_def past_check_count_snoc)
next
  case (start_seen i)
  with assms(2) show ?thesis
    by (simp add: once_inv_def past_check_count_same)
next
  case (start_new i)
  let ?f0 = "task_fqc (ts ! i)"
  show ?thesis
    unfolding once_inv_def
  proof
    fix f
    from assms(2) have le: "past_check_count f ts \<le> (if f \<in> seen_subdomains s then 1 else 0)"
      by (simp add: once_inv_def)
    from start_new past_check_count_update [of i ts f "(ts ! i)\<lparr>position := Waiting\<rparr>"]
    have eq: "past_check_count f ts' = past_check_count f ts + (if ?f0 = f then 1 else 0)"
      by simp
    show "past_check_count f ts' \<le> (if f \<in> seen_subdomains s' then 1 else 0)"
    proof (cases "f = ?f0")
      case True
      with start_new le eq show ?thesis by simp
    next
      case False
      with start_new le eq show ?thesis by auto
    qed
  qed
next
  case (acquire i)
  with assms(2) show ?thesis
    by (simp add: once_inv_def past_check_count_same)
next
  case (pass_returns i attempt rest r evs)
  with assms(2) show ?thesis
    by (simp add: once_inv_def past_check_count_same)
next
  case (pass_continues i attempt rest evs)
  with assms(2) show ?thesis
    by (simp add: once_inv_def past_check_count_same)
next
  case (loop_ends i)
  with assms(2) show ?thesis
    by (simp add: once_inv_def past_check_count_same)
qed

lemma once_inv_seen:
  assumes "once_inv s ts" and "t \<in> set ts" and "past_check (position t)"
  shows "task_fqc t \<in> seen_subdomains s"
proof (rule ccontr)
  assume "task_fqc t \<notin> seen_subdomains s"
  with assms(1) have "past_check_count (task_fqc t) ts = 0"
    by (auto simp: once_inv_def dest: spec [of _ "task_fqc t"])
  with assms(2,3) show False
    by (auto simp: past_check_count_def filter_empty_conv)
qed

lemma url_of_inj [simp]: "url_of f = url_of g \<longleftrightarrow> f = g"
  by (simp add: url_of_def)

lemma attempt_once_gets:
  assumes "attempt_once net mr fd attempt = (r, evs)" and "Get u \<in> set evs"
  shows "u = url_of fd"
  using assms
  by (auto simp: attempt_once_def except_handler_def
      split: attempt.splits body.splits if_splits)

lemma step_requests_seen:
  assumes "step net (s, ts) (s', ts')" and "once_inv s ts" and "requests_seen s"
  shows "requests_seen s'"
  using assms(1)
proof cases
  case (pass_returns i attempt rest r evs)
  then have "task_fqc (ts ! i) \<in> seen_subdomains s"
    using once_inv_seen [OF assms(2), of "ts ! i"] by simp
  with pass_returns assms(3) show ?thesis
    by (auto simp: requests_seen_def dest: attempt_once_gets)
next
  case (pass_continues i attempt rest evs)
  then have "task_fqc (ts ! i) \<in> seen_subdomains s"
    using once_inv_seen [OF assms(2), of "ts ! i"] by simp
  with pass_continues assms(3) show ?thesis
    by (auto simp: requests_seen_def dest: attempt_once_gets)
qed (use assms(3) in \<open>auto simp: requests_seen_def\<close>)

lemma steps_once:
  assumes "(step net)\<^sup>*\<^sup>* (s, ts) (s', ts')" and "once_inv s ts" and "requests_seen s"
  shows "once_inv s' ts' \<and> requests_seen s'"
  using assms(1)
proof (induction "(s', ts')" arbitrary: s' ts' rule: rtranclp_induct)
  case base
  from assms(2,3) show ?case by simp
next
  case (step y)
  obtain s1 ts1 where y: "y = (s1, ts1)" by (cases y)
  from step.hyps(3) [OF y] have "once_inv s1 ts1" "requests_seen s1" by simp_all
  with step.hyps(2) y show ?case
    by (simp add: step_once_inv step_requests_seen)
qed

lemma step_later_call:
  assumes "step net (s, ts) (s', ts')"
    and "j < length ts" and "position (ts ! j) = Created"
    and "task_fqc (ts ! j) \<in> seen_subdomains s"
    and "position (ts' ! j) \<noteq> Created"
  shows "s' = s \<and> position (ts' ! j) = Skipped"
  using assms(1)
proof cases
  case (spawn subdomain domain)
  with assms(2,3,5) show ?thesis by (simp add: nth_append)
next
  case (start_seen i)
  with assms(2,3,5) show ?thesis by (cases "i = j") simp_all
next
  case (start_new i)
  with assms(2,3,4,5) show ?thesis by (cases "i = j") simp_all
next
  case (acquire i)
  with assms(2,3,5) show ?thesis by (cases "i = j") simp_all
next
  case (pass_returns i attempt rest r evs)
  with assms(2,3,5) show ?thesis by (cases "i = j") simp_all
next
  case (pass_continues i attempt rest evs)
  with assms(2,3,5) show ?thesis by (cases "i = j") simp_all
next
  case (loop_ends i)
  with assms(2,3,5) show ?thesis by (cases "i = j") simp_all
qed

lemma init_fresh:
  "init c m k = Inr s \<Longrightarrow> seen_subdomains s = {} \<and> trace s = []"
  by (auto simp: init_def split: if_splits)

text \<open>
  C1. On a constructed scanner, whatever calls of \<open>check_subdomain\<close> are created over its
  lifetime and however they interleave: for every name at most one call goes past the
  membership test, so at most one probe is made for it; a call past the test has its
  name in the seen set, and every request made so far went to a name already in the seen
  set, so the insertion comes before any network call; and a call for a name that an
  earlier call took past the test, when it starts, returns \<open>None\<close> from the test and leaves
  the scanner (seen set, semaphore, trace) as it was.
\<close>

theorem check_subdomain_probes_once:
  assumes "init c m k = Inr s0" and "(step net)\<^sup>*\<^sup>* (s0, []) (s, ts)"
  shows "(\<forall>f. past_check_count f ts \<le> 1)
       \<and> (\<forall>t \<in> set ts. past_check (position t) \<longrightarrow> task_fqc t \<in> seen_subdomains s)
       \<and> (\<forall>f. Get (url_of f) \<in> set (trace s) \<longrightarrow> f \<in> seen_subdomains s)
       \<and> (\<forall>i j s' ts'. i < length ts \<and> j < length ts \<and> past_check (position (ts ! i))
              \<and> task_fqc (ts ! j) = task_fqc (ts ! i) \<and> position (ts ! j) = Created
              \<and> step net (s, ts) (s', ts') \<and> position (ts' ! j) \<noteq> Created
            \<longrightarrow> s' = s \<and> position (ts' ! j) = Skipped)"
proof -
  from init_fresh [OF assms(1)] have "once_inv s0 []" "requests_seen s0"
    by (simp_all add: once_inv_def requests_seen_def past_check_count_def)
  with steps_once [OF assms(2)] have inv: "once_inv s ts" and req: "requests_seen s"
    by simp_all
  have one: "\<forall>f. past_check_count f ts \<le> 1"
  proof
    fix f
    from inv have "past_check_count f ts \<le> (if f \<in> seen_subdomains s then 1 else 0)"
      by (simp add: once_inv_def)
    then show "past_check_count f ts \<le> 1" by (simp split: if_splits)
  qed
  have seen: "\<forall>t \<in> set ts. past_check (position t) \<longrightarrow> task_fqc t \<in> seen_subdomains s"
    using once_inv_seen [OF inv] by blast
  have later: "\<forall>i j s' ts'. i < length ts \<and> j < length ts \<and> past_check (position (ts ! i))
              \<and> task_fqc (ts ! j) = task_fqc (ts ! i) \<and> position (ts ! j) = Created
              \<and> step net (s, ts) (s', ts') \<and> position (ts' ! j) \<noteq> Created
            \<longrightarrow> s' = s \<and> position (ts' ! j) = Skipped"
  proof (intro allI impI)
    fix i j s' ts'
    assume h: "i < length ts \<and> j < length ts \<and> past_check (position (ts ! i))
              \<and> task_fqc (ts ! j) = task_fqc (ts ! i) \<and> position (ts ! j) = Created
              \<and> step net (s, ts) (s', ts') \<and> position (ts' ! j) \<noteq> Created"
    then have "task_fqc (ts ! j) \<in> seen_subdomains s"
      using seen by (metis nth_mem)
    with h show "s' = s \<and> position (ts' ! j) = Skipped"
      using step_later_call [of net s ts s' ts' j] by blast
  qed
  from one seen req later show ?thesis
    unfolding requests_seen_def by blast
qed

text \<open>Two calls for one name: the first probes, the second is skipped.\<close>

lemma run_same_name:
  "(step (\<lambda>url attempt. GetRaises))\<^sup>*\<^sup>*
     (default_scanner, [])
     (default_scanner\<lparr>seen_subdomains := {''a.x''}, rate_limiter := 49,
        trace := [Get ''http://a.x'', Sleep 1]\<rparr>,
      [\<lparr>task_subdomain = ''a'', task_domain = ''x'', position = Running [1]\<rparr>,
       \<lparr>task_subdomain = ''a'', task_domain = ''x'', position = Skipped\<rparr>])"
proof -
  let ?net = "\<lambda>(url :: string) (attempt :: int). GetRaises"
  let ?s = "default_scanner"
  let ?a = "\<lambda>p. \<lparr>task_subdomain = ''a'', task_domain = ''x'', position = p\<rparr>"
  have 1: "step ?net (?s, []) (?s, [?a Created])"
    using step.spawn [of ?net ?s "[]" "''a''" "''x''"] by simp
  have 2: "step ?net (?s, [?a Created]) (?s, [?a Created, ?a Created])"
    using step.spawn [of ?net ?s "[?a Created]" "''a''" "''x''"] by simp
  have 3: "step ?net (?s, [?a Created, ?a Created])
             (?s\<lparr>seen_subdomains := {''a.x''}\<rparr>, [?a Waiting, ?a Created])"
    using step.start_new [of 0 "[?a Created, ?a Created]" ?s ?net]
    by (simp add: task_fqc_def full_domain_of_def default_scanner_def)
  have 4: "step ?net (?s\<lparr>seen_subdomains := {''a.x''}\<rparr>, [?a Waiting, ?a Created])
             (?s\<lparr>seen_subdomains := {''a.x''}\<rparr>, [?a Waiting, ?a Skipped])"
    using step.start_seen [of 1 "[?a Waiting, ?a Created]" "?s\<lparr>seen_subdomains := {''a.x''}\<rparr>" ?net]
    by (simp add: task_fqc_def full_domain_of_def default_scanner_def)
  have 5: "step ?net (?s\<lparr>seen_subdomains := {''a.x''}\<rparr>, [?a Waiting, ?a Skipped])
             (?s\<lparr>seen_subdomains := {''a.x''}, rate_limiter := 49\<rparr>,
              [?a (Running [0, 1]), ?a Skipped])"
    using step.acquire [of 0 "[?a Waiting, ?a Skipped]" "?s\<lparr>seen_subdomains := {''a.x''}\<rparr>" ?net]
    by (simp add: default_scanner_def range1_def upto_rec1)
  have 6: "step ?net (?s\<lparr>seen_subdomains := {''a.x''}, rate_limiter := 49\<rparr>,
              [?a (Running [0, 1]), ?a Skipped])
             (?s\<lparr>seen_subdomains := {''a.x''}, rate_limiter := 49,
                  trace := [Get ''http://a.x'', Sleep 1]\<rparr>,
              [?a (Running [1]), ?a Skipped])"
    using step.pass_continues [of 0 "[?a (Running [0, 1]), ?a Skipped]" 0 "[1]" ?net
        "?s\<lparr>seen_subdomains := {''a.x''}, rate_limiter := 49\<rparr>" "[Get ''http://a.x'', Sleep 1]"]
    by (simp add: default_scanner_def attempt_once_def except_handler_def task_fqc_def
        full_domain_of_def url_of_def)
  from 1 2 3 4 5 6 show ?thesis
    by (meson steps_trans3 rtranclp.rtrancl_refl)
qed

theorem check_subdomain_probes_once_witness:
  "past_check_count ''a.x''
      [\<lparr>task_subdomain = ''a'', task_domain = ''x'', position = Running [1]\<rparr>,
       \<lparr>task_subdomain = ''a'', task_domain = ''x'', position = Skipped\<rparr>] \<le> 1
   \<and> ''a.x'' \<in> seen_subdomains (default_scanner\<lparr>seen_subdomains := {''a.x''}, rate_limiter := 49,
        trace := [Get ''http://a.x'', Sleep 1]\<rparr>)"
  using check_subdomain_probes_once [OF init_default run_same_name]
  by (simp add: url_of_def)

subsection \<open>The calls run one after another are a schedule of the pool\<close>

text \<open>
  What the function \<open>check_subdomain\<close> computes is reached in the pool by creating the
  call and moving it alone to its end; what \<open>gather\<close> computes, by doing so for each label
  in turn. The invariants of the pool therefore hold along the runs of the functions.
\<close>

lemma run_attempts:
  assumes "i < length ts" and "position (ts ! i) = Running ks"
  shows "(step net)\<^sup>*\<^sup>* (s, ts)
     (s\<lparr>trace := trace s @ snd (attempts net (max_retries s) (task_fqc (ts ! i)) ks),
        rate_limiter := rate_limiter s + 1\<rparr>,
      ts[i := (ts ! i)\<lparr>position :=
            Finished (fst (attempts net (max_retries s) (task_fqc (ts ! i)) ks))\<rparr>])"
  using assms
proof (induction ks arbitrary: s ts)
  case Nil
  from step.loop_ends [OF Nil, of net s] show ?case by simp
next
  case (Cons k ks)
  obtain r evs where a: "attempt_once net (max_retries s) (task_fqc (ts ! i)) k = (r, evs)"
    by (cases "attempt_once net (max_retries s) (task_fqc (ts ! i)) k")
  show ?case
  proof (cases r)
    case (Some x)
    with step.pass_returns [OF Cons.prems, of net s x evs] a show ?thesis by simp
  next
    case None
    let ?s1 = "s\<lparr>trace := trace s @ evs\<rparr>"
    let ?ts1 = "ts[i := (ts ! i)\<lparr>position := Running ks\<rparr>]"
    from step.pass_continues [OF Cons.prems, of net s evs] a None
    have 1: "step net (s, ts) (?s1, ?ts1)" by simp
    have "i < length ?ts1" "position (?ts1 ! i) = Running ks"
      using Cons.prems(1) by simp_all
    from Cons.IH [OF this, of ?s1] Cons.prems(1) a None
    have 2: "(step net)\<^sup>*\<^sup>* (?s1, ?ts1)
      (s\<lparr>trace := trace s @ snd (attempts net (max_retries s) (task_fqc (ts ! i)) (k # ks)),
         rate_limiter := rate_limiter s + 1\<rparr>,
       ts[i := (ts ! i)\<lparr>position :=
            Finished (fst (attempts net (max_retries s) (task_fqc (ts ! i)) (k # ks)))\<rparr>])"
      by (simp add: after_events_def)
    from 1 2 show ?thesis by (rule converse_rtranclp_into_rtranclp)
  qed
qed

lemma check_subdomain_schedule:
  assumes "check_subdomain net s subdomain domain = Returns (r, s')"
  shows "\<exists>p. (step net)\<^sup>*\<^sup>* (s, ts)
           (s', ts @ [\<lparr>task_subdomain = subdomain, task_domain = domain, position = p\<rparr>])
         \<and> (p = Skipped \<and> r = None \<or> p = Finished r)"
proof -
  let ?t = "\<lambda>p. \<lparr>task_subdomain = subdomain, task_domain = domain, position = p\<rparr>"
  let ?fd = "full_domain_of subdomain domain"
  have i: "length ts < length (ts @ [?t Created])" by simp
  have fq: "task_fqc ((ts @ [?t Created]) ! length ts) = ?fd"
    by (simp add: task_fqc_def)
  have 0: "step net (s, ts) (s, ts @ [?t Created])"
    by (rule step.spawn)
  show ?thesis
  proof (cases "?fd \<in> seen_subdomains s")
    case True
    with assms have r: "r = None" "s' = s" by (simp_all add: check_subdomain_def)
    from step.start_seen [OF i, of s net] True fq
    have "step net (s, ts @ [?t Created]) (s, ts @ [?t Skipped])" by simp
    with 0 r show ?thesis
      by (intro exI [of _ Skipped]) (auto intro: converse_rtranclp_into_rtranclp)
  next
    case False
    with assms have rl: "0 < rate_limiter s"
      by (cases "rate_limiter s = 0") (simp_all add: check_subdomain_def)
    let ?a = "attempts net (max_retries s) ?fd (range1 (max_retries s))"
    from assms False rl have r: "r = fst ?a"
      and s': "s' = s\<lparr>seen_subdomains := insert ?fd (seen_subdomains s),
                     trace := trace s @ snd ?a\<rparr>"
      by (simp_all add: check_subdomain_new)
    let ?s1 = "s\<lparr>seen_subdomains := insert ?fd (seen_subdomains s)\<rparr>"
    let ?s2 = "?s1\<lparr>rate_limiter := rate_limiter ?s1 - 1\<rparr>"
    from step.start_new [OF i, of s net] False fq
    have 1: "step net (s, ts @ [?t Created]) (?s1, ts @ [?t Waiting])" by simp
    have "length ts < length (ts @ [?t Waiting])"
      "position ((ts @ [?t Waiting]) ! length ts) = Waiting" "0 < rate_limiter ?s1"
      using rl by simp_all
    from step.acquire [OF this, of net]
    have 2: "step net (?s1, ts @ [?t Waiting])
               (?s2, ts @ [?t (Running (range1 (max_retries s)))])" by simp
    have "length ts < length (ts @ [?t (Running (range1 (max_retries s)))])"
      "position ((ts @ [?t (Running (range1 (max_retries s)))]) ! length ts)
         = Running (range1 (max_retries s))"
      by simp_all
    from run_attempts [OF this, of net ?s2] rl
    have 3: "(step net)\<^sup>*\<^sup>* (?s2, ts @ [?t (Running (range1 (max_retries s)))])
               (s', ts @ [?t (Finished r)])"
      by (simp add: r s' task_fqc_def)
    from 0 1 2 3 have "(step net)\<^sup>*\<^sup>* (s, ts) (s', ts @ [?t (Finished r)])"
      by (meson converse_rtranclp_into_rtranclp)
    then show ?thesis by blast
  qed
qed

lemma gather_schedule:
  assumes "gather net s domain ls = Returns (rs, s')"
  shows "\<exists>new. (step net)\<^sup>*\<^sup>* (s, ts) (s', ts @ new)
           \<and> map task_subdomain new = ls
           \<and> (\<forall>t \<in> set new. task_domain t = domain)
           \<and> map (\<lambda>t. case position t of Finished r \<Rightarrow> r | _ \<Rightarrow> None) new = rs"
  using assms
proof (induction ls arbitrary: s ts rs)
  case Nil
  then show ?case by (intro exI [of _ "[]"]) simp
next
  case (Cons l ls)
  from Cons.prems obtain r s1 rs1 where
    c: "check_subdomain net s l domain = Returns (r, s1)"
    and g: "gather net s1 domain ls = Returns (rs1, s')"
    and rs: "rs = r # rs1"
    by (auto split: outcome.splits)
  from check_subdomain_schedule [OF c, of ts] obtain p where
    1: "(step net)\<^sup>*\<^sup>* (s, ts)
          (s1, ts @ [\<lparr>task_subdomain = l, task_domain = domain, position = p\<rparr>])"
    and p: "p = Skipped \<and> r = None \<or> p = Finished r"
    by blast
  let ?t = "\<lparr>task_subdomain = l, task_domain = domain, position = p\<rparr>"
  from Cons.IH [OF g, of "ts @ [?t]"] obtain new where
    2: "(step net)\<^sup>*\<^sup>* (s1, ts @ [?t]) (s', (ts @ [?t]) @ new)"
    and n: "map task_subdomain new = ls" "\<forall>t \<in> set new. task_domain t = domain"
      "map (\<lambda>t. case position t of Finished r \<Rightarrow> r | _ \<Rightarrow> None) new = rs1"
    by blast
  from 1 2 have "(step net)\<^sup>*\<^sup>* (s, ts) (s', ts @ (?t # new))" by simp
  moreover from p have "(case position ?t of Finished r \<Rightarrow> r | _ \<Rightarrow> None) = r" by auto
  ultimately show ?case using n rs
    by (intro exI [of _ "?t # new"]) simp
qed

subsection \<open>A gather as a function of the seen set\<close>

lemma requests_append [simp]: "requests (xs @ ys) = requests xs @ requests ys"
  by (induction xs rule: requests.induct) simp_all

lemma progress_of_append [simp]: "progress_of (xs @ ys) = progress_of xs @ progress_of ys"
  by (induction xs rule: progress_of.induct) simp_all

lemma check_subdomain_hangs:
  "full_domain_of subdomain domain \<notin> seen_subdomains s \<Longrightarrow> rate_limiter s = 0 \<Longrightarrow>
   check_subdomain net s subdomain domain = Hangs"
  by (simp add: check_subdomain_def)

lemma gather_probes:
  "0 < rate_limiter s \<Longrightarrow>
   gather net s domain ls =
     Returns (fst (probes net (max_retries s) domain (seen_subdomains s) ls),
       s\<lparr>seen_subdomains := seen_subdomains s \<union> fqcs domain ls,
         trace := trace s @ snd (probes net (max_retries s) domain (seen_subdomains s) ls)\<rparr>)"
proof (induction ls arbitrary: s)
  case Nil
  show ?case by (simp add: fqcs_def)
next
  case (Cons l ls)
  show ?case
  proof (cases "full_domain_of l domain \<in> seen_subdomains s")
    case True
    then have "insert (full_domain_of l domain) (seen_subdomains s \<union> fqcs domain ls)
        = seen_subdomains s \<union> fqcs domain ls" by auto
    with True Cons show ?thesis
      by (simp add: check_subdomain_def fqcs_def)
  next
    case False
    let ?s1 = "s\<lparr>seen_subdomains := insert (full_domain_of l domain) (seen_subdomains s),
         trace := trace s @ snd (attempts net (max_retries s) (full_domain_of l domain) (range1 (max_retries s)))\<rparr>"
    have "0 < rate_limiter ?s1" using Cons.prems by simp
    from Cons.IH [OF this] False Cons.prems show ?thesis
      by (simp add: check_subdomain_new fqcs_def)
  qed
qed

lemma probes_append:
  "probes net mr d seen (xs @ ys) =
     (fst (probes net mr d seen xs) @ fst (probes net mr d (seen \<union> fqcs d xs) ys),
      snd (probes net mr d seen xs) @ snd (probes net mr d (seen \<union> fqcs d xs) ys))"
proof (induction xs arbitrary: seen)
  case Nil
  show ?case by (simp add: fqcs_def)
next
  case (Cons x xs)
  have 1: "insert (full_domain_of x d) seen \<union> fqcs d xs = seen \<union> fqcs d (x # xs)"
    by (auto simp: fqcs_def)
  have 2: "full_domain_of x d \<in> seen \<Longrightarrow> seen \<union> fqcs d xs = seen \<union> fqcs d (x # xs)"
    by (auto simp: fqcs_def)
  show ?case
    by (cases "full_domain_of x d \<in> seen") (simp_all add: Cons 1 2 del: Un_insert_left)
qed

lemma probes_all_seen:
  "fqcs d ls \<subseteq> seen \<Longrightarrow> probes net mr d seen ls = (replicate (length ls) None, [])"
  by (induction ls) (simp_all add: fqcs_def)

lemma attempts_events:
  "Get u \<in> set (snd (attempts net mr fd ks)) \<Longrightarrow> u = url_of fd"
proof (induction ks)
  case Nil
  then show ?case by simp
next
  case (Cons k ks)
  obtain r evs where a: "attempt_once net mr fd k = (r, evs)" by (cases "attempt_once net mr fd k")
  have g: "Get u \<in> set evs \<Longrightarrow> u = url_of fd"
    using a by (auto simp: attempt_once_def except_handler_def
      split: attempt.splits body.splits if_splits)
  from Cons a g show ?case
    by (cases r) (auto simp: after_events_def)
qed

lemma attempts_no_progress: "progress_of (snd (attempts net mr fd ks)) = []"
proof (induction ks)
  case Nil
  show ?case by simp
next
  case (Cons k ks)
  obtain r evs where a: "attempt_once net mr fd k = (r, evs)" by (cases "attempt_once net mr fd k")
  have g: "progress_of evs = []"
    using a by (auto simp: attempt_once_def except_handler_def
      split: attempt.splits body.splits if_splits)
  from Cons a g show ?case
    by (cases r) (auto simp: after_events_def)
qed

lemma set_requests: "set (requests es) = {u. Get u \<in> set es}"
  by (induction es rule: requests.induct) auto

lemma probes_requests:
  "set (requests (snd (probes net mr d seen ls))) \<subseteq> url_of ` fqcs d ls"
proof (induction ls arbitrary: seen)
  case Nil
  show ?case by simp
next
  case (Cons l ls)
  have "set (requests (snd (attempts net mr (full_domain_of l d) (range1 mr))))
          \<subseteq> {url_of (full_domain_of l d)}"
    using attempts_events by (auto simp: set_requests)
  with Cons [of seen] Cons [of "insert (full_domain_of l d) seen"] show ?case
    by (auto simp: fqcs_def)
qed

lemma probes_no_progress: "progress_of (snd (probes net mr d seen ls)) = []"
  by (induction ls arbitrary: seen) (simp_all add: attempts_no_progress)

lemma length_probes: "length (fst (probes net mr d seen ls)) = length ls"
  by (induction ls arbitrary: seen) simp_all

lemma probes_fresh:
  "distinct (map (\<lambda>l. full_domain_of l d) ls) \<Longrightarrow> fqcs d ls \<inter> seen = {} \<Longrightarrow>
   fst (probes net mr d seen ls) =
     map (\<lambda>l. fst (attempts net mr (full_domain_of l d) (range1 mr))) ls"
proof (induction ls arbitrary: seen)
  case Nil
  show ?case by simp
next
  case (Cons l ls)
  from Cons.prems have "full_domain_of l d \<notin> seen"
    and "distinct (map (\<lambda>l. full_domain_of l d) ls)"
    and "fqcs d ls \<inter> insert (full_domain_of l d) seen = {}"
    by (auto simp: fqcs_def)
  with Cons.IH [of "insert (full_domain_of l d) seen"] show ?case by simp
qed

subsection \<open>The loop over the chunks\<close>

lemma somes_append [simp]: "somes (xs @ ys) = somes xs @ somes ys"
  by (simp add: somes_def)

lemma fqcs_append [simp]: "fqcs d (xs @ ys) = fqcs d xs \<union> fqcs d ys"
  by (auto simp: fqcs_def)

lemma fqcs_Nil [simp]: "fqcs d [] = {}"
  by (simp add: fqcs_def)

lemma chunk_requests_prefix:
  "progress_of evs = [] \<Longrightarrow>
   chunk_requests (evs @ Progress p t f # rest) = requests evs # chunk_requests rest"
  by (induction evs rule: progress_of.induct) simp_all

lemma somes_Nil [simp]: "somes [] = []"
  by (simp add: somes_def)

lemma closed_trace_Nil [simp]: "closed_trace []"
  by (simp add: closed_trace_def)

lemma closed_trace_snoc [simp]: "closed_trace (T @ [Progress p t f])"
  by (auto simp: closed_trace_def)

lemma closed_trace_append2:
  assumes "closed_trace T2" and "T2 \<noteq> []"
  shows "closed_trace (T1 @ T2)"
proof -
  from assms obtain T' p t f where "T2 = T' @ [Progress p t f]"
    by (auto simp: closed_trace_def)
  then have "T1 @ T2 = (T1 @ T') @ [Progress p t f]" by simp
  then show ?thesis unfolding closed_trace_def by blast
qed

lemma chunk_requests_snoc_nonempty: "chunk_requests (es @ [Progress p t f]) \<noteq> []"
  by (induction es rule: chunk_requests.induct) (simp_all split: list.splits)

lemma chunk_requests_split:
  "chunk_requests (es @ Progress p t f # T2)
     = chunk_requests (es @ [Progress p t f]) @ chunk_requests T2"
proof (induction es rule: chunk_requests.induct)
  case (3 u es)
  obtain r rs where "chunk_requests (es @ [Progress p t f]) = r # rs"
    using chunk_requests_snoc_nonempty [of es p t f]
    by (cases "chunk_requests (es @ [Progress p t f])") auto
  with 3 show ?case by simp
qed simp_all

lemma chunk_requests_append:
  assumes "closed_trace T1"
  shows "chunk_requests (T1 @ T2) = chunk_requests T1 @ chunk_requests T2"
proof (cases "T1 = []")
  case True
  then show ?thesis by simp
next
  case False
  with assms obtain T' p t f where "T1 = T' @ [Progress p t f]"
    by (auto simp: closed_trace_def)
  then show ?thesis using chunk_requests_split [of T' p t f T2] by simp
qed

lemma scan_subdomains_chunk_probes:
  "0 < rate_limiter s \<Longrightarrow>
   scan_subdomains_chunk net s domain ls =
     Returns (somes (fst (probes net (max_retries s) domain (seen_subdomains s) ls)),
       s\<lparr>seen_subdomains := seen_subdomains s \<union> fqcs domain ls,
         trace := trace s @ snd (probes net (max_retries s) domain (seen_subdomains s) ls)\<rparr>)"
  by (simp add: scan_subdomains_chunk_def gather_probes somes_def)

lemma chunks_at_Cons [simp]:
  "chunks_at c xs (i # starts) = take c (drop i xs) # chunks_at c xs starts"
  by (simp add: chunks_at_def)

lemma chunks_at_Nil [simp]: "chunks_at c xs [] = []"
  by (simp add: chunks_at_def)

lemma scan_chunks_probes:
  assumes "0 < rate_limiter s"
  shows "\<exists>T. scan_chunks net d subs starts s acc =
      Returns (acc @ somes (fst (probes net (max_retries s) d (seen_subdomains s)
                 (concat (chunks_at (nat (chunk_size s)) subs starts)))),
        s\<lparr>seen_subdomains :=
             seen_subdomains s \<union> fqcs d (concat (chunks_at (nat (chunk_size s)) subs starts)),
          trace := trace s @ T\<rparr>)
    \<and> requests T = requests (snd (probes net (max_retries s) d (seen_subdomains s)
                 (concat (chunks_at (nat (chunk_size s)) subs starts))))
    \<and> progress_of T =
        map (\<lambda>i. (i + length (take (nat (chunk_size s)) (drop i subs)), length subs)) starts
    \<and> list_all2 (\<lambda>rq chunk. set rq \<subseteq> url_of ` fqcs d chunk)
        (chunk_requests T) (chunks_at (nat (chunk_size s)) subs starts)
    \<and> closed_trace T"
  using assms
proof (induction starts arbitrary: s acc)
  case Nil
  have "s\<lparr>seen_subdomains := seen_subdomains s, trace := trace s\<rparr> = s" by simp
  then show ?case by (intro exI [of _ "[]"]) simp
next
  case (Cons i starts)
  let ?c = "nat (chunk_size s)"
  let ?chunk = "take ?c (drop i subs)"
  let ?P1 = "probes net (max_retries s) d (seen_subdomains s) ?chunk"
  let ?s1 = "s\<lparr>seen_subdomains := seen_subdomains s \<union> fqcs d ?chunk,
                trace := trace s @ snd ?P1\<rparr>"
  let ?acc1 = "acc @ somes (fst ?P1)"
  let ?pr = "Progress (i + length ?chunk) (length subs) (length ?acc1)"
  let ?s2 = "?s1\<lparr>trace := trace ?s1 @ [?pr]\<rparr>"
  let ?rest = "concat (chunks_at ?c subs starts)"
  let ?P2 = "probes net (max_retries s) d (seen_subdomains s \<union> fqcs d ?chunk) ?rest"
  have chunk: "scan_subdomains_chunk net s d ?chunk = Returns (somes (fst ?P1), ?s1)"
    using Cons.prems by (rule scan_subdomains_chunk_probes)
  have unfold: "scan_chunks net d subs (i # starts) s acc = scan_chunks net d subs starts ?s2 ?acc1"
    by (simp add: chunk Let_def)
  have "0 < rate_limiter ?s2" using Cons.prems by simp
  from Cons.IH [OF this, of ?acc1] obtain T where
    ret: "scan_chunks net d subs starts ?s2 ?acc1 =
      Returns (?acc1 @ somes (fst ?P2),
        ?s2\<lparr>seen_subdomains := seen_subdomains ?s2 \<union> fqcs d ?rest, trace := trace ?s2 @ T\<rparr>)"
    and req: "requests T = requests (snd ?P2)"
    and prog: "progress_of T =
        map (\<lambda>i. (i + length (take ?c (drop i subs)), length subs)) starts"
    and segs: "list_all2 (\<lambda>rq chunk. set rq \<subseteq> url_of ` fqcs d chunk)
        (chunk_requests T) (chunks_at ?c subs starts)"
    and closed: "closed_trace T"
    by auto
  let ?T = "snd ?P1 @ ?pr # T"
  have P: "probes net (max_retries s) d (seen_subdomains s) (?chunk @ ?rest)
             = (fst ?P1 @ fst ?P2, snd ?P1 @ snd ?P2)"
    by (rule probes_append)
  have state: "?s2\<lparr>seen_subdomains := seen_subdomains ?s2 \<union> fqcs d ?rest, trace := trace ?s2 @ T\<rparr>
      = s\<lparr>seen_subdomains := seen_subdomains s \<union> fqcs d (?chunk @ ?rest), trace := trace s @ ?T\<rparr>"
    by (simp add: Un_assoc)
  have 1: "scan_chunks net d subs (i # starts) s acc =
      Returns (acc @ somes (fst (probes net (max_retries s) d (seen_subdomains s) (?chunk @ ?rest))),
        s\<lparr>seen_subdomains := seen_subdomains s \<union> fqcs d (?chunk @ ?rest), trace := trace s @ ?T\<rparr>)"
    unfolding unfold ret state P by simp
  have 2: "requests ?T = requests (snd (probes net (max_retries s) d (seen_subdomains s) (?chunk @ ?rest)))"
    unfolding P by (simp add: req)
  have 3: "progress_of ?T =
      map (\<lambda>i. (i + length (take ?c (drop i subs)), length subs)) (i # starts)"
    by (simp add: probes_no_progress prog)
  have 4: "list_all2 (\<lambda>rq chunk. set rq \<subseteq> url_of ` fqcs d chunk)
        (chunk_requests ?T) (chunks_at ?c subs (i # starts))"
    using segs probes_requests [of net "max_retries s" d "seen_subdomains s" ?chunk]
    by (simp add: chunk_requests_prefix [OF probes_no_progress])
  have 5: "closed_trace ?T"
  proof (cases "T = []")
    case True
    then show ?thesis using closed_trace_snoc [of "snd ?P1"] by simp
  next
    case False
    with closed have "closed_trace ((snd ?P1 @ [?pr]) @ T)" by (rule closed_trace_append2)
    then show ?thesis by simp
  qed
  from 1 2 3 4 5 show ?case
    by (intro exI [of _ ?T]) simp
qed

subsection \<open>The loop over the lengths\<close>

lemma range_from0_pos:
  "0 < k \<Longrightarrow> range_from0 n k = Inr (chunk_starts n (nat k))"
  by (simp add: range_from0_def chunk_starts_def)

lemma generate_subdomains_nonneg:
  "0 \<le> L \<Longrightarrow> generate_subdomains s L = Inr (product (chars s) (nat L))"
  by (simp add: generate_subdomains_def)

lemma concat_chunks_upto:
  "0 < c \<Longrightarrow> concat (map (\<lambda>k. take c (drop (k * c) xs)) [0..<m]) = take (m * c) xs"
proof (induction m)
  case 0
  show ?case by simp
next
  case (Suc m)
  have "take (m * c) xs @ take c (drop (m * c) xs) = take (m * c + c) xs"
    by (simp add: take_add)
  with Suc show ?case by (simp add: add.commute)
qed

lemma chunks_cover: "0 < c \<Longrightarrow> length xs \<le> ((length xs + c - 1) div c) * c"
proof -
  assume c: "0 < c"
  have "(length xs + c - 1) mod c < c" using c by simp
  moreover have "length xs + c - 1 = (length xs + c - 1) div c * c + (length xs + c - 1) mod c"
    by simp
  ultimately show ?thesis using c by linarith
qed

lemma concat_chunks [simp]: "0 < c \<Longrightarrow> concat (chunks c xs) = xs"
  using chunks_cover [of c xs]
  by (simp add: chunks_def chunks_at_def chunk_starts_def comp_def concat_chunks_upto)

lemma length_progress_alt:
  "length_progress c n = map (\<lambda>i. (i + min (n - i) c, n)) (chunk_starts n c)"
  by (simp add: length_progress_def min.commute)

lemma scan_lengths_probes:
  assumes "0 < rate_limiter s" and "0 < chunk_size s" and "\<forall>L \<in> set lens. 0 \<le> L"
  shows "\<exists>T. scan_lengths net d lens s acc =
      Returns (acc @ somes (fst (probes net (max_retries s) d (seen_subdomains s)
                 (candidates (chars s) lens))),
        s\<lparr>seen_subdomains := seen_subdomains s \<union> fqcs d (candidates (chars s) lens),
          trace := trace s @ T\<rparr>)
    \<and> requests T = requests (snd (probes net (max_retries s) d (seen_subdomains s)
                 (candidates (chars s) lens)))
    \<and> progress_of T =
        concat (map (\<lambda>L. length_progress (nat (chunk_size s)) (length (product (chars s) (nat L)))) lens)
    \<and> list_all2 (\<lambda>rq chunk. set rq \<subseteq> url_of ` fqcs d chunk)
        (chunk_requests T)
        (concat (map (\<lambda>L. chunks (nat (chunk_size s)) (product (chars s) (nat L))) lens))"
  using assms
proof (induction lens arbitrary: s acc)
  case Nil
  have "s\<lparr>seen_subdomains := seen_subdomains s, trace := trace s\<rparr> = s" by simp
  then show ?case by (intro exI [of _ "[]"]) (simp add: candidates_def)
next
  case (Cons L lens)
  let ?c = "nat (chunk_size s)"
  let ?subs = "product (chars s) (nat L)"
  let ?s1 = "s\<lparr>trace := trace s @ [Info_length d L]\<rparr>"
  let ?P1 = "probes net (max_retries s) d (seen_subdomains s) ?subs"
  let ?acc1 = "acc @ somes (fst ?P1)"
  let ?rest = "candidates (chars s) lens"
  let ?P2 = "probes net (max_retries s) d (seen_subdomains s \<union> fqcs d ?subs) ?rest"
  from Cons.prems have L: "0 \<le> L" and lens: "\<forall>L \<in> set lens. 0 \<le> L" and c: "0 < ?c"
    by simp_all
  have cc: "concat (chunks_at ?c ?subs (chunk_starts (length ?subs) ?c)) = ?subs"
    using concat_chunks [OF c, of ?subs] by (simp add: chunks_def)
  have "0 < rate_limiter ?s1" using Cons.prems by simp
  from scan_chunks_probes [OF this, of net d ?subs "chunk_starts (length ?subs) ?c" acc]
  obtain T1 where
    ret1: "scan_chunks net d ?subs (chunk_starts (length ?subs) ?c) ?s1 acc =
      Returns (?acc1, ?s1\<lparr>seen_subdomains := seen_subdomains s \<union> fqcs d ?subs,
                         trace := trace ?s1 @ T1\<rparr>)"
    and req1: "requests T1 = requests (snd ?P1)"
    and prog1: "progress_of T1 = length_progress ?c (length ?subs)"
    and segs1: "list_all2 (\<lambda>rq chunk. set rq \<subseteq> url_of ` fqcs d chunk)
        (chunk_requests T1) (chunks ?c ?subs)"
    and closed1: "closed_trace T1"
    by (auto simp: cc length_progress_alt chunks_def)
  let ?s2 = "?s1\<lparr>seen_subdomains := seen_subdomains s \<union> fqcs d ?subs, trace := trace ?s1 @ T1\<rparr>"
  have unfold: "scan_lengths net d (L # lens) s acc = scan_lengths net d lens ?s2 ?acc1"
    using Cons.prems(2)
    by (simp add: generate_subdomains_nonneg [OF L] range_from0_pos ret1 Let_def)
  have "0 < rate_limiter ?s2" "0 < chunk_size ?s2" using Cons.prems by simp_all
  from Cons.IH [OF this lens, of ?acc1] obtain T2 where
    ret2: "scan_lengths net d lens ?s2 ?acc1 =
      Returns (?acc1 @ somes (fst ?P2),
        ?s2\<lparr>seen_subdomains := seen_subdomains ?s2 \<union> fqcs d ?rest, trace := trace ?s2 @ T2\<rparr>)"
    and req2: "requests T2 = requests (snd ?P2)"
    and prog2: "progress_of T2 =
        concat (map (\<lambda>L. length_progress ?c (length (product (chars s) (nat L)))) lens)"
    and segs2: "list_all2 (\<lambda>rq chunk. set rq \<subseteq> url_of ` fqcs d chunk)
        (chunk_requests T2) (concat (map (\<lambda>L. chunks ?c (product (chars s) (nat L))) lens))"
    by auto
  let ?T = "Info_length d L # T1 @ T2"
  have cands: "candidates (chars s) (L # lens) = ?subs @ ?rest"
    by (simp add: candidates_def)
  have P: "probes net (max_retries s) d (seen_subdomains s) (?subs @ ?rest)
             = (fst ?P1 @ fst ?P2, snd ?P1 @ snd ?P2)"
    by (rule probes_append)
  have state: "?s2\<lparr>seen_subdomains := seen_subdomains ?s2 \<union> fqcs d ?rest, trace := trace ?s2 @ T2\<rparr>
      = s\<lparr>seen_subdomains := seen_subdomains s \<union> fqcs d (?subs @ ?rest), trace := trace s @ ?T\<rparr>"
    by (simp add: Un_assoc)
  have 1: "scan_lengths net d (L # lens) s acc =
      Returns (acc @ somes (fst (probes net (max_retries s) d (seen_subdomains s)
                 (candidates (chars s) (L # lens)))),
        s\<lparr>seen_subdomains := seen_subdomains s \<union> fqcs d (candidates (chars s) (L # lens)),
          trace := trace s @ ?T\<rparr>)"
    unfolding unfold ret2 state cands P by simp
  have 2: "requests ?T = requests (snd (probes net (max_retries s) d (seen_subdomains s)
                 (candidates (chars s) (L # lens))))"
    unfolding cands P by (simp add: req1 req2)
  have 3: "progress_of ?T =
        concat (map (\<lambda>L. length_progress ?c (length (product (chars s) (nat L)))) (L # lens))"
    by (simp add: prog1 prog2)
  have 4: "list_all2 (\<lambda>rq chunk. set rq \<subseteq> url_of ` fqcs d chunk)
        (chunk_requests ?T)
        (concat (map (\<lambda>L. chunks ?c (product (chars s) (nat L))) (L # lens)))"
    using segs1 segs2
    by (simp add: chunk_requests_append [OF closed1] list_all2_appendI)
  from 1 2 3 4 show ?case
    by (intro exI [of _ ?T]) simp
qed

lemma range2_upto: "range2 a (b + 1) = [a..b]"
  by (simp add: range2_def)

lemma scan_domain_probes:
  assumes "0 < rate_limiter s" and "0 < chunk_size s" and "0 \<le> lo"
  shows "\<exists>T. scan_domain net s d lo hi =
      Returns (somes (fst (probes net (max_retries s) d (seen_subdomains s)
                 (candidates (chars s) [lo..hi]))),
        s\<lparr>seen_subdomains := seen_subdomains s \<union> fqcs d (candidates (chars s) [lo..hi]),
          trace := trace s @ T\<rparr>)
    \<and> requests T = requests (snd (probes net (max_retries s) d (seen_subdomains s)
                 (candidates (chars s) [lo..hi])))
    \<and> progress_of T =
        concat (map (\<lambda>L. length_progress (nat (chunk_size s)) (length (product (chars s) (nat L)))) [lo..hi])
    \<and> list_all2 (\<lambda>rq chunk. set rq \<subseteq> url_of ` fqcs d chunk)
        (chunk_requests T)
        (concat (map (\<lambda>L. chunks (nat (chunk_size s)) (product (chars s) (nat L))) [lo..hi]))"
proof -
  from assms(3) have "\<forall>L \<in> set [lo..hi]. 0 \<le> L" by simp
  from scan_lengths_probes [OF assms(1,2) this, of net d "[]"] show ?thesis
    by (simp add: scan_domain_def range2_upto)
qed

lemma chunk_start_below:
  assumes "0 < c" and "k < (n + c - 1) div c"
  shows "k * c < (n :: nat)"
proof -
  from assms(2) have "Suc k \<le> (n + c - 1) div c" by simp
  then have "Suc k * c \<le> (n + c - 1) div c * c" by (rule mult_le_mono1)
  also have "\<dots> \<le> n + c - 1" by simp
  finally show ?thesis using assms(1) by simp
qed

lemma sorted_length_progress:
  assumes "0 < c"
  shows "sorted_wrt (<) (map fst (length_progress c n))"
proof -
  let ?m = "(n + c - 1) div c"
  have "k * c + min c (n - k * c) < j * c + min c (n - j * c)" if "k < j" "j < ?m" for k j
  proof -
    from that have "Suc k \<le> j" by simp
    then have "Suc k * c \<le> j * c" by (rule mult_le_mono1)
    moreover have "j * c < n" using assms that(2) by (rule chunk_start_below)
    ultimately have "Suc k * c \<le> j * c" and "0 < min c (n - j * c)"
      using assms by simp_all
    moreover have "k * c + min c (n - k * c) \<le> Suc k * c" by simp
    ultimately show ?thesis by linarith
  qed
  then show ?thesis
    by (simp add: length_progress_def chunk_starts_def sorted_wrt_iff_nth_less)
qed

lemma length_progress_36_10:
  "length_progress 10 36 = [(10, 36), (20, 36), (30, 36), (36, 36)]"
  by (simp add: length_progress_def chunk_starts_def upt_conv_Cons)

lemma upto_1_3: "[1..3] = [1, 2, 3 :: int]"
  by (simp add: upto_rec1)

lemma default_progress_prefix:
  "take 4 (map fst (concat (map (\<lambda>L. length_progress 1000 (36 ^ nat L)) [1..3])))
     = [36, 1000, 1296, 1000]"
  by (simp add: upto_1_3 length_progress_def chunk_starts_def upt_conv_Cons)

subsection \<open>Progress lines\<close>

lemma chars_default: "chars default_scanner = ascii_lowercase @ digits"
  by (simp add: default_scanner_def ascii_lowercase_def digits_def)

lemma default_fields:
  "concurrent_requests default_scanner = 50" "max_retries default_scanner = 2"
  "chunk_size default_scanner = 1000" "seen_subdomains default_scanner = {}"
  "rate_limiter default_scanner = 50" "trace default_scanner = []"
  "length (chars default_scanner) = 36"
  by (simp_all add: default_scanner_def)

lemma default_positive:
  "0 < rate_limiter default_scanner" "0 < chunk_size default_scanner"
  by (simp_all add: default_scanner_def)

text \<open>
  C7 as stated (the processed values strictly increase over all lengths of one scan)
  does not hold: the count starts again at each length. With the default settings
  (chunk size 1000, lengths 1 to 3) the processed values begin 36, 1000, 1296, 1000.
\<close>

theorem scan_domain_progress_restarts_counterexample:
  "map_option (\<lambda>x. take 4 (map fst (progress_of (trace (snd x)))))
     (result_of (scan_domain (\<lambda>url attempt. GetRaises) default_scanner ''x'' 1 3))
   = Some [36, 1000, 1296, 1000]"
proof -
  have "(0::int) \<le> 1" by simp
  from scan_domain_probes [OF default_positive this, of "\<lambda>url attempt. GetRaises" "''x''" 3]
  obtain s' where "scan_domain (\<lambda>url attempt. GetRaises) default_scanner ''x'' 1 3 = Returns s'"
    and "progress_of (trace (snd s')) =
      concat (map (\<lambda>L. length_progress 1000 (36 ^ nat L)) [1..3])"
    by (auto simp: length_product default_fields)
  then show ?thesis
    by (simp add: result_of_def default_progress_prefix)
qed

text \<open>
  C7, amended. A scan with a free semaphore, a positive chunk size and a minimum length
  of at least 0 returns, and its progress lines are, length by length in ascending
  order, those of \<open>length_progress\<close>: one line per chunk with processed = chunk start +
  actual chunk size and total = the number of candidates of that length. Within one
  length the processed values strictly increase; at the next length they start again.
  For 36 candidates and chunk size 10 the lines are 10, 20, 30, 36.
\<close>

theorem scan_domain_progress:
  assumes "0 < rate_limiter s" and "0 < chunk_size s" and "0 \<le> min_length"
  shows "\<exists>r s'. scan_domain net s domain min_length max_length = Returns (r, s')
      \<and> progress_of (trace s') = progress_of (trace s) @
           concat (map (\<lambda>L. length_progress (nat (chunk_size s)) (length (chars s) ^ nat L))
                    [min_length..max_length])
      \<and> (\<forall>n. sorted_wrt (<) (map fst (length_progress (nat (chunk_size s)) n)))"
proof -
  from scan_domain_probes [OF assms, of net domain max_length]
  obtain r s' where "scan_domain net s domain min_length max_length = Returns (r, s')"
    and "progress_of (trace s') = progress_of (trace s) @
           concat (map (\<lambda>L. length_progress (nat (chunk_size s)) (length (chars s) ^ nat L))
                    [min_length..max_length])"
    by (auto simp: length_product)
  moreover have "\<forall>n. sorted_wrt (<) (map fst (length_progress (nat (chunk_size s)) n))"
    using assms(2) by (simp add: sorted_length_progress)
  ultimately show ?thesis by blast
qed

theorem scan_domain_progress_witness:
  "\<exists>r s'. scan_domain (\<lambda>url attempt. GetRaises) (default_scanner\<lparr>chunk_size := 10\<rparr>) ''x'' 1 1
             = Returns (r, s')
      \<and> progress_of (trace s') = [(10, 36), (20, 36), (30, 36), (36, 36)]
      \<and> sorted_wrt (<) (map fst (length_progress 10 36))"
proof -
  let ?s = "default_scanner\<lparr>chunk_size := 10\<rparr>"
  have h: "0 < rate_limiter ?s" "0 < chunk_size ?s" "(0::int) \<le> 1"
    by (simp_all add: default_fields)
  have "length (chars ?s) = 36" "trace ?s = []" "chunk_size ?s = 10"
    by (simp_all add: default_fields)
  with scan_domain_progress [OF h, of "\<lambda>url attempt. GetRaises" "''x''" 1]
  show ?thesis
    by (auto simp: length_progress_36_10)
qed

subsection \<open>The results of a scan\<close>

lemma somes_map: "somes (map f xs) = List.map_filter f xs"
  by (simp add: somes_def map_filter_def filter_map comp_def)

lemma somes_replicate_None [simp]: "somes (replicate n None) = []"
  by (simp add: somes_def)

lemma candidates_Cons:
  "candidates cs (L # lens) = product cs (nat L) @ candidates cs lens"
  by (simp add: candidates_def)

lemma candidates_length:
  "x \<in> set (candidates cs lens) \<Longrightarrow> \<exists>L \<in> set lens. length x = nat L"
  by (auto simp: candidates_def set_product)

lemma distinct_candidates:
  "distinct cs \<Longrightarrow> distinct lens \<Longrightarrow> \<forall>L \<in> set lens. 0 \<le> L \<Longrightarrow> distinct (candidates cs lens)"
proof (induction lens)
  case Nil
  show ?case by (simp add: candidates_def)
next
  case (Cons L lens)
  have "set (product cs (nat L)) \<inter> set (candidates cs lens) = {}"
  proof (rule ccontr)
    assume "set (product cs (nat L)) \<inter> set (candidates cs lens) \<noteq> {}"
    then obtain x where "x \<in> set (product cs (nat L))" and "x \<in> set (candidates cs lens)"
      by blast
    then obtain L' where "L' \<in> set lens" and "nat L = nat L'"
      using candidates_length [of x cs lens] by (auto simp: set_product)
    moreover from \<open>L' \<in> set lens\<close> Cons.prems(3) have "0 \<le> L'" and "0 \<le> L" by simp_all
    ultimately have "L = L'" by linarith
    with \<open>L' \<in> set lens\<close> Cons.prems(2) show False by simp
  qed
  with Cons show ?case
    by (simp add: candidates_Cons distinct_product)
qed

lemma full_domain_of_inj: "full_domain_of l d = full_domain_of l' d \<longleftrightarrow> l = l'"
  by (simp add: full_domain_of_def)

lemma distinct_fqcs:
  "distinct ls \<Longrightarrow> distinct (map (\<lambda>l. full_domain_of l d) ls)"
  by (simp add: distinct_map inj_on_def full_domain_of_inj)

lemma concat_all_chunks:
  "0 < c \<Longrightarrow> concat (concat (map (\<lambda>L. chunks c (product cs (nat L))) lens)) = candidates cs lens"
  by (induction lens) (simp_all add: candidates_def)

text \<open>
  C8. A scan with a free semaphore, a positive chunk size and a minimum length of at
  least 0 returns what one gather over all candidates would return, the candidates
  taken length by length in ascending order and in generator order within a length; on
  a scanner that has seen none of them and has an alphabet without repetition this is
  the list of the found pairs of exactly those candidates whose probe finds, in that
  order. The chunks, concatenated, are the candidates in generator order. In the trace,
  the requests made before the first progress line and between two consecutive progress
  lines go to names of the corresponding chunk only: the progress line of chunk \<open>k\<close>
  (logged after the chunk's results were appended) precedes every request of chunk
  \<open>k + 1\<close> and follows every request of chunk \<open>k\<close>.
\<close>

theorem scan_domain_aggregate:
  assumes "0 < rate_limiter s" and "0 < chunk_size s" and "0 \<le> min_length"
  shows "\<exists>r s' s'' T.
      scan_domain net s domain min_length max_length = Returns (r, s')
    \<and> scan_subdomains_chunk net s domain (candidates (chars s) [min_length..max_length])
        = Returns (r, s'')
    \<and> (distinct (chars s)
         \<and> fqcs domain (candidates (chars s) [min_length..max_length]) \<inter> seen_subdomains s = {}
       \<longrightarrow> r = List.map_filter
             (\<lambda>l. fst (attempts net (max_retries s) (full_domain_of l domain)
                          (range1 (max_retries s))))
             (candidates (chars s) [min_length..max_length]))
    \<and> concat (concat (map (\<lambda>L. chunks (nat (chunk_size s)) (product (chars s) (nat L)))
                        [min_length..max_length]))
        = candidates (chars s) [min_length..max_length]
    \<and> trace s' = trace s @ T
    \<and> list_all2 (\<lambda>rq chunk. set rq \<subseteq> url_of ` fqcs domain chunk)
        (chunk_requests T)
        (concat (map (\<lambda>L. chunks (nat (chunk_size s)) (product (chars s) (nat L)))
                  [min_length..max_length]))"
proof -
  let ?cands = "candidates (chars s) [min_length..max_length]"
  let ?P = "probes net (max_retries s) domain (seen_subdomains s) ?cands"
  let ?chunks = "concat (map (\<lambda>L. chunks (nat (chunk_size s)) (product (chars s) (nat L)))
                  [min_length..max_length])"
  from scan_domain_probes [OF assms, of net domain max_length]
  obtain T where ret: "scan_domain net s domain min_length max_length =
      Returns (somes (fst ?P),
        s\<lparr>seen_subdomains := seen_subdomains s \<union> fqcs domain ?cands, trace := trace s @ T\<rparr>)"
    and segs: "list_all2 (\<lambda>rq chunk. set rq \<subseteq> url_of ` fqcs domain chunk)
        (chunk_requests T) ?chunks"
    by blast
  have flat: "scan_subdomains_chunk net s domain ?cands =
      Returns (somes (fst ?P),
        s\<lparr>seen_subdomains := seen_subdomains s \<union> fqcs domain ?cands,
          trace := trace s @ snd ?P\<rparr>)"
    using assms(1) by (rule scan_subdomains_chunk_probes)
  have fresh: "somes (fst ?P) = List.map_filter
             (\<lambda>l. fst (attempts net (max_retries s) (full_domain_of l domain)
                          (range1 (max_retries s)))) ?cands"
    if "distinct (chars s)" and "fqcs domain ?cands \<inter> seen_subdomains s = {}"
  proof -
    from that(1) assms(3) have "distinct ?cands"
      by (intro distinct_candidates) simp_all
    then have "distinct (map (\<lambda>l. full_domain_of l domain) ?cands)"
      by (rule distinct_fqcs)
    from probes_fresh [OF this that(2)] show ?thesis
      by (simp add: somes_map)
  qed
  have cover: "concat ?chunks = ?cands"
    using assms(2) by (simp add: concat_all_chunks)
  from ret flat fresh cover segs show ?thesis
    by (intro exI [of _ "somes (fst ?P)"] exI [of _ T]
        exI [of _ "s\<lparr>seen_subdomains := seen_subdomains s \<union> fqcs domain ?cands, trace := trace s @ T\<rparr>"]
        exI [of _ "s\<lparr>seen_subdomains := seen_subdomains s \<union> fqcs domain ?cands,
          trace := trace s @ snd ?P\<rparr>"]) simp
qed

lemma upto_1_1: "[1..1] = [1 :: int]"
  by simp

theorem scan_domain_aggregate_witness:
  "\<exists>s'. scan_domain
      (\<lambda>url attempt. if url = ''http://a.example.com''
                      then Response 200 (Text (Soup (Some (Tag (Some ''Hi'')))))
                      else GetRaises)
      default_scanner ''example.com'' 1 1
    = Returns ([(''a.example.com'', Some ''Hi'')], s')"
proof -
  let ?net = "\<lambda>(url :: string) (attempt :: int). if url = ''http://a.example.com''
                      then Response 200 (Text (Soup (Some (Tag (Some ''Hi'')))))
                      else GetRaises"
  have h: "(0::int) \<le> 1" by simp
  have d: "distinct (chars default_scanner)"
    using distinct_chars by (simp only: chars_default)
  have cands: "candidates (chars default_scanner) [1]
      = map (\<lambda>x. [x]) ''abcdefghijklmnopqrstuvwxyz0123456789''"
    by (simp add: candidates_def product_1 default_scanner_def)
  have f: "fqcs ''example.com'' (candidates (chars default_scanner) [1..1])
            \<inter> seen_subdomains default_scanner = {}"
    by (simp add: default_fields)
  from scan_domain_aggregate [OF default_positive h, of ?net "''example.com''" 1] d f
  show ?thesis
    by (auto simp: cands default_fields range1_2 attempt_once_def after_events_def
        full_domain_of_def url_of_def title_of_def)
qed

lemma attempts_fixed:
  assumes "0 < m"
  shows "fst (attempts (\<lambda>url attempt. resp url) m fd (range1 m)) =
     (case resp (url_of fd) of
        Response st (Text sp) \<Rightarrow> if st = 200 then Some (fd, title_of sp) else None
      | Response st TextRaises \<Rightarrow> None
      | GetRaises \<Rightarrow> None)"
proof (cases "failed (resp (url_of fd))")
  case True
  then have "\<forall>k \<in> set (range1 m). failed ((\<lambda>url attempt. resp url) (url_of fd) k)"
    by simp
  from attempts_all_failed [where net = "\<lambda>url attempt. resp url" and ks = "range1 m"
      and fd = fd and mr = m, OF this] True show ?thesis
    by (cases "resp (url_of fd)" rule: failed.cases) simp_all
next
  case False
  then obtain sp where sp: "resp (url_of fd) = Response 200 (Text sp)"
    by (cases "resp (url_of fd)" rule: failed.cases) simp_all
  have "range1 m = [] @ 0 # [1..m - 1]"
    using range1_split [of 0 m] assms by simp
  moreover have "fst (attempts (\<lambda>url attempt. resp url) m fd ([] @ 0 # [1..m - 1]))
      = Some (fd, title_of sp)"
    by (rule attempts_found) (simp_all add: sp)
  ultimately show ?thesis by (simp add: sp)
qed

lemma probes_fixed:
  assumes "0 < m1" and "0 < m2"
  shows "fst (probes (\<lambda>url attempt. resp url) m1 d seen ls)
       = fst (probes (\<lambda>url attempt. resp url) m2 d seen ls)"
  by (induction ls arbitrary: seen) (simp_all add: attempts_fixed assms)

lemma init_fields:
  assumes "init c m k = Inr s"
  shows "rate_limiter s = nat c" "max_retries s = m" "chunk_size s = k"
    "seen_subdomains s = {}" "chars s = ascii_lowercase @ digits" "trace s = []"
    "concurrent_requests s = c"
  using assms by (auto simp: init_def split: if_splits)

text \<open>
  C9. Let the network answer each URL by a fixed response, the same at every attempt.
  Two scanners constructed with positive settings (which may differ in
  \<open>concurrent_requests\<close>, \<open>max_retries\<close> and \<open>chunk_size\<close>) scanning the same domain and range
  of lengths (minimum at least 0) both return, and return the same found pairs.
\<close>

theorem scan_domain_deterministic:
  assumes "init c1 m1 k1 = Inr s1" and "init c2 m2 k2 = Inr s2"
    and "0 < c1" and "0 < m1" and "0 < k1"
    and "0 < c2" and "0 < m2" and "0 < k2"
    and "0 \<le> min_length"
  shows "\<exists>r t1 t2.
      scan_domain (\<lambda>url attempt. resp url) s1 domain min_length max_length = Returns (r, t1)
    \<and> scan_domain (\<lambda>url attempt. resp url) s2 domain min_length max_length = Returns (r, t2)"
proof -
  let ?net = "\<lambda>(url :: string) (attempt :: int). resp url"
  let ?cands = "candidates (ascii_lowercase @ digits) [min_length..max_length]"
  note f1 = init_fields [OF assms(1)] and f2 = init_fields [OF assms(2)]
  have p1: "0 < rate_limiter s1" "0 < chunk_size s1"
    using assms(3,5) by (simp_all add: f1)
  have p2: "0 < rate_limiter s2" "0 < chunk_size s2"
    using assms(6,8) by (simp_all add: f2)
  from scan_domain_probes [OF p1 assms(9), of ?net domain max_length]
  obtain t1 where 1: "scan_domain ?net s1 domain min_length max_length
      = Returns (somes (fst (probes ?net m1 domain {} ?cands)), t1)"
    by (auto simp: f1)
  from scan_domain_probes [OF p2 assms(9), of ?net domain max_length]
  obtain t2 where 2: "scan_domain ?net s2 domain min_length max_length
      = Returns (somes (fst (probes ?net m2 domain {} ?cands)), t2)"
    by (auto simp: f2)
  from 1 2 probes_fixed [OF assms(4,7), of resp domain "{}" ?cands] show ?thesis
    by simp
qed

theorem scan_domain_deterministic_witness:
  "\<exists>r t1 t2.
      scan_domain (\<lambda>url attempt. if url = ''http://a.x'' then Response 200 (Text (Soup None))
                                  else Response 404 TextRaises)
        default_scanner ''x'' 1 2 = Returns (r, t1)
    \<and> scan_domain (\<lambda>url attempt. if url = ''http://a.x'' then Response 200 (Text (Soup None))
                                  else Response 404 TextRaises)
        (default_scanner\<lparr>concurrent_requests := 1, rate_limiter := 1\<rparr>) ''x'' 1 2
        = Returns (r, t2)"
proof -
  have "(0::int) < 50" "(0::int) < 2" "(0::int) < 1000" "(0::int) < 1" "(0::int) \<le> 1"
    by simp_all
  from scan_domain_deterministic [OF init_default init_one_slot this(1,2,3,4,2,3,5),
      of "\<lambda>url. if url = ''http://a.x'' then Response 200 (Text (Soup None))
                  else Response 404 TextRaises" "''x''" 2]
  show ?thesis .
qed

text \<open>
  C10. After a scan (free semaphore, positive chunk size, minimum length at least 0)
  has returned, every candidate's full name is in the seen set, and a second scan of
  the same domain and lengths on the resulting scanner, whatever the network now
  answers, returns the empty list, makes no request and leaves the seen set as it is.
\<close>

theorem scan_domain_second_run:
  assumes "0 < rate_limiter s" and "0 < chunk_size s" and "0 \<le> min_length"
  shows "\<exists>r1 s1 s2.
      scan_domain net s domain min_length max_length = Returns (r1, s1)
    \<and> fqcs domain (candidates (chars s) [min_length..max_length]) \<subseteq> seen_subdomains s1
    \<and> scan_domain net2 s1 domain min_length max_length = Returns ([], s2)
    \<and> requests (trace s2) = requests (trace s1)
    \<and> seen_subdomains s2 = seen_subdomains s1"
proof -
  let ?cands = "candidates (chars s) [min_length..max_length]"
  from scan_domain_probes [OF assms, of net domain max_length]
  obtain r1 T where 1: "scan_domain net s domain min_length max_length = Returns (r1,
        s\<lparr>seen_subdomains := seen_subdomains s \<union> fqcs domain ?cands, trace := trace s @ T\<rparr>)"
    by blast
  let ?s1 = "s\<lparr>seen_subdomains := seen_subdomains s \<union> fqcs domain ?cands, trace := trace s @ T\<rparr>"
  have p: "0 < rate_limiter ?s1" "0 < chunk_size ?s1"
    using assms by simp_all
  have seen: "fqcs domain ?cands \<subseteq> seen_subdomains s \<union> fqcs domain ?cands"
    by simp
  from scan_domain_probes [OF p assms(3), of net2 domain max_length]
  obtain T2 where 2: "scan_domain net2 ?s1 domain min_length max_length = Returns ([],
        ?s1\<lparr>trace := trace ?s1 @ T2\<rparr>)"
    and "requests T2 = []"
    by (auto simp: probes_all_seen [OF seen] Un_absorb2)
  with 1 show ?thesis
    by (intro exI [of _ r1] exI [of _ ?s1] exI [of _ "?s1\<lparr>trace := trace ?s1 @ T2\<rparr>"]) simp
qed

theorem scan_domain_second_run_witness:
  "\<exists>r1 s1 s2.
      scan_domain (\<lambda>url attempt. Response 200 (Text (Soup None))) default_scanner ''x'' 1 1
        = Returns (r1, s1)
    \<and> scan_domain (\<lambda>url attempt. Response 200 (Text (Soup None))) s1 ''x'' 1 1
        = Returns ([], s2)
    \<and> requests (trace s2) = requests (trace s1)"
proof -
  have "(0::int) \<le> 1" by simp
  from scan_domain_second_run [OF default_positive this,
      of "\<lambda>url attempt. Response 200 (Text (Soup None))" "''x''" 1
         "\<lambda>url attempt. Response 200 (Text (Soup None))"]
  show ?thesis by blast
qed

end
